theory Spec2Isabelle
  imports Complex_Main "HOL-Library.Multiset"
begin

section \<open>Course generator for the rhythm mode: data model\<close>

text \<open>
  The development follows \<^verbatim>\<open>scripts/generate_courses.py\<close>. Python floats are
  idealised as real numbers, Python's unbounded integers are \<^typ>\<open>int\<close>, and every
  exception the modelled code can raise is a value of \<open>py_error\<close>.
\<close>

datatype py_error = IndexError | ZeroDivisionError

definition LANE_COUNT :: int where
  "LANE_COUNT = 4"

definition LANE_CROSS_TIME_S :: real where
  "LANE_CROSS_TIME_S = 0.3"

definition BEAT_SNAP_WINDOW_S :: real where
  "BEAT_SNAP_WINDOW_S = 0.100"

definition ENERGY_WINDOW_S :: real where
  "ENERGY_WINDOW_S = 10.0"

definition DIFFICULTY_CURVE_WINDOWS :: nat where
  "DIFFICULTY_CURVE_WINDOWS = 8"

definition INTRO_SKIP_S :: real where
  "INTRO_SKIP_S = 4.0"

definition OUTRO_SKIP_S :: real where
  "OUTRO_SKIP_S = 2.0"

definition NUM_SECTIONS :: nat where
  "NUM_SECTIONS = 8"

record DifficultyParams =
  beat_skip :: int
  max_per_cluster :: int
  crash_weight :: real
  car_weight :: real
  slow_weight :: real
  pickup_ratio :: real
  min_safe_lanes :: int
  density :: real
  curve_start :: real
  energy_floor :: real
  energy_influence :: real
  wave_amplitude :: int
  wave_period :: int
  wave_noise :: real
  cluster2_energy :: real
  cluster3_energy :: real
  cluster2_prob :: real
  cluster3_prob :: real

record CourseEvent =
  t :: real
  lane :: int
  type :: string
  lead :: "real option"

record ScoreBreakdown =
  beat_sync :: real
  flow :: real
  difficulty_curve :: real
  type_variety :: real
  lane_coverage :: real
  energy_match :: real
  cull_rate :: real

text \<open>The fields of the beat data dictionary that the generator reads.\<close>

record BeatData =
  resolution_ms :: int
  duration_s :: real
  beats :: "real list"
  bass :: "int list"
  percussive :: "int list"
  harmonic :: "int list"
  energy :: "int list"

text \<open>\<^verbatim>\<open>int(x)\<close> on a float truncates toward zero.\<close>

definition py_int :: "real \<Rightarrow> int" where
  "py_int x = (if 0 \<le> x then \<lfloor>x\<rfloor> else \<lceil>x\<rceil>)"

text \<open>\<^verbatim>\<open>round(x)\<close> rounds to the nearest integer, ties to the even one.\<close>

definition py_round :: "real \<Rightarrow> int" where
  "py_round x =
     (let f = \<lfloor>x\<rfloor>; d = x - of_int f
      in if d < 1 / 2 then f else if 1 / 2 < d then f + 1 else if even f then f else f + 1)"

text \<open>\<^verbatim>\<open>round(x, 3)\<close>: three decimals.\<close>

definition round3 :: "real \<Rightarrow> real" where
  "round3 x = of_int (py_round (x * 1000)) / 1000"

definition startswith :: "string \<Rightarrow> string \<Rightarrow> bool" where
  "startswith s p = (take (length p) s = p)"

definition is_pickup :: "CourseEvent \<Rightarrow> bool" where
  "is_pickup e = startswith (type e) ''pickup''"

section \<open>Beat data helpers\<close>

text \<open>
  \<^verbatim>\<open>sample_at(arr, time_s, resolution_ms)\<close>. The division by \<open>resolution_ms\<close> raises
  for a zero resolution; the two clamping tests look at the truncated index \<open>i0\<close>.
\<close>

definition sample_at :: "int list \<Rightarrow> real \<Rightarrow> int \<Rightarrow> py_error + real" where
  "sample_at arr time_s res_ms =
     (if arr = [] then Inr 0
      else if res_ms = 0 then Inl ZeroDivisionError
      else
        let idx = (time_s * 1000) / of_int res_ms;
            i0 = py_int idx;
            i1 = i0 + 1
        in if i0 < 0 then Inr (of_int (arr ! 0) / 255)
           else if int (length arr) - 1 \<le> i0 then Inr (of_int (last arr) / 255)
           else
             let frac = idx - of_int i0
             in Inr ((of_int (arr ! nat i0) * (1 - frac) + of_int (arr ! nat i1) * frac) / 255))"

text \<open>\<^verbatim>\<open>find_nearest_beat\<close>: the binary search loop, then the two neighbours.\<close>

function nearest_beat_loop :: "real list \<Rightarrow> real \<Rightarrow> nat \<Rightarrow> nat \<Rightarrow> nat" where
  "nearest_beat_loop bs x lo hi =
     (if lo < hi then
        (let mid = (lo + hi) div 2
         in if bs ! mid < x then nearest_beat_loop bs x (mid + 1) hi
            else nearest_beat_loop bs x lo mid)
      else lo)"
  by pat_completeness auto
termination
  by (relation "measure (\<lambda>(bs, x, lo, hi). hi - lo)") auto

declare nearest_beat_loop.simps [simp del]

definition find_nearest_beat :: "real list \<Rightarrow> real \<Rightarrow> real" where
  "find_nearest_beat bs x =
     (if bs = [] then 999
      else
        let lo = nearest_beat_loop bs x 0 (length bs - 1);
            best = \<bar>bs ! lo - x\<bar>
        in if 0 < lo then min best \<bar>bs ! (lo - 1) - x\<bar> else best)"

section \<open>Path validation\<close>

text \<open>
  The grouping loop of \<^verbatim>\<open>validate_paths\<close>: \<open>tgs\<close> is \<^verbatim>\<open>time_groups\<close>, \<open>cgt\<close> is
  \<^verbatim>\<open>current_group_time\<close> and \<open>cg\<close> is \<^verbatim>\<open>current_group\<close>. The last equation is the
  flush after the loop.
\<close>

fun group_by_time ::
  "CourseEvent list \<Rightarrow> (real \<times> CourseEvent list) list \<Rightarrow> real \<Rightarrow> CourseEvent list
     \<Rightarrow> (real \<times> CourseEvent list) list" where
  "group_by_time [] tgs cgt cg = (if cg \<noteq> [] then tgs @ [(cgt, cg)] else tgs)"
| "group_by_time (e # es) tgs cgt cg =
     (if \<bar>t e - cgt\<bar> < 0.05 then group_by_time es tgs cgt (cg @ [e])
      else group_by_time es (if cg \<noteq> [] then tgs @ [(cgt, cg)] else tgs) (t e) [e])"

definition time_groups :: "CourseEvent list \<Rightarrow> (real \<times> CourseEvent list) list" where
  "time_groups events = group_by_time (sort_key t events) [] (- 999) []"

definition obstacles_of :: "CourseEvent list \<Rightarrow> CourseEvent list" where
  "obstacles_of es = filter (\<lambda>e. \<not> is_pickup e) es"

definition all_lanes :: "int set" where
  "all_lanes = {0 ..< LANE_COUNT}"

text \<open>
  The loop that enforces the minimum of safe lanes: pop the last obstacle, discard its
  lane from \<^verbatim>\<open>blocked_lanes\<close>, count the cull.
\<close>

function enforce_min_safe ::
  "int \<Rightarrow> CourseEvent list \<Rightarrow> int set \<Rightarrow> nat \<Rightarrow> CourseEvent list \<times> int set \<times> nat" where
  "enforce_min_safe msl obs blocked cc =
     (if LANE_COUNT - int (card blocked) < msl \<and> obs \<noteq> [] then
        enforce_min_safe msl (butlast obs) (blocked - {lane (last obs)}) (cc + 1)
      else (obs, blocked, cc))"
  by pat_completeness auto
termination
  by (relation "measure (\<lambda>(msl, obs, blocked, cc). length obs)") auto

declare enforce_min_safe.simps [simp del]

text \<open>The two nested \<^verbatim>\<open>for\<close> loops with \<^verbatim>\<open>break\<close> that set \<^verbatim>\<open>reachable\<close>.\<close>

definition reachable_between :: "int set \<Rightarrow> int set \<Rightarrow> int \<Rightarrow> bool" where
  "reachable_between prev_safe current_safe max_lane_change =
     (\<exists>prev_lane \<in> prev_safe. \<exists>curr_lane \<in> current_safe.
        \<bar>curr_lane - prev_lane\<bar> \<le> max_lane_change)"

function restore_reachability ::
  "int set \<Rightarrow> int \<Rightarrow> CourseEvent list \<Rightarrow> int set \<Rightarrow> nat \<Rightarrow> bool \<Rightarrow> CourseEvent list \<times> nat" where
  "restore_reachability prev_safe mlc obs blocked cc reachable =
     (if \<not> reachable \<and> obs \<noteq> [] then
        (let blocked' = blocked - {lane (last obs)};
             current_safe = all_lanes - blocked'
         in restore_reachability prev_safe mlc (butlast obs) blocked' (cc + 1)
              (reachable_between prev_safe current_safe mlc))
      else (obs, cc))"
  by pat_completeness auto
termination
  by (relation "measure (\<lambda>(prev_safe, mlc, obs, blocked, cc, reachable). length obs)") auto

declare restore_reachability.simps [simp del]

text \<open>
  One iteration of the loop over the time groups; \<open>prev\<close> is \<^verbatim>\<open>time_groups[gi - 1]\<close>,
  the group as it was formed (culling never changes that list), or \<open>None\<close> when
  \<^verbatim>\<open>gi = 0\<close>. The result is what the iteration appends to \<^verbatim>\<open>validated\<close> and the new
  cull count.
\<close>

definition validate_group ::
  "int \<Rightarrow> (real \<times> CourseEvent list) option \<Rightarrow> real \<times> CourseEvent list \<Rightarrow> nat
     \<Rightarrow> CourseEvent list \<times> nat" where
  "validate_group msl prev g cc =
     (let group_time = fst g;
          group_events = snd g;
          pickup_events = filter is_pickup group_events;
          obstacle_events = obstacles_of group_events;
          blocked_lanes = set (map lane obstacle_events);
          (obs1, blocked1, cc1) = enforce_min_safe msl obstacle_events blocked_lanes cc;
          (obs2, cc2) =
            (case prev of
               None \<Rightarrow> (obs1, cc1)
             | Some p \<Rightarrow>
                 let time_gap = group_time - fst p;
                     max_lane_change = py_int (time_gap / LANE_CROSS_TIME_S);
                     prev_blocked = set (map lane (obstacles_of (snd p)));
                     prev_safe = all_lanes - prev_blocked;
                     current_safe = all_lanes - blocked1
                 in restore_reachability prev_safe max_lane_change obs1 blocked1 cc1
                      (reachable_between prev_safe current_safe max_lane_change))
      in (obs2 @ pickup_events, cc2))"

fun validate_groups ::
  "int \<Rightarrow> (real \<times> CourseEvent list) option \<Rightarrow> (real \<times> CourseEvent list) list
     \<Rightarrow> CourseEvent list \<Rightarrow> nat \<Rightarrow> CourseEvent list \<times> nat" where
  "validate_groups msl prev [] validated cc = (validated, cc)"
| "validate_groups msl prev (g # gs) validated cc =
     (case validate_group msl prev g cc of
        (kept, cc') \<Rightarrow> validate_groups msl (Some g) gs (validated @ kept) cc')"

definition validate_paths :: "CourseEvent list \<Rightarrow> DifficultyParams \<Rightarrow> CourseEvent list \<times> nat" where
  "validate_paths events params =
     (if events = [] then (events, 0)
      else
        (case validate_groups (min_safe_lanes params) None (time_groups events) [] 0 of
           (validated, cull_count) \<Rightarrow> (sort_key t validated, cull_count)))"

text \<open>The three difficulty presets, \<^verbatim>\<open>DIFFICULTY_PRESETS\<close>.\<close>

definition easy_params :: DifficultyParams where
  "easy_params = \<lparr>beat_skip = 4, max_per_cluster = 1, crash_weight = 0.25, car_weight = 0.20,
     slow_weight = 0.20, pickup_ratio = 0.35, min_safe_lanes = 3, density = 0.55,
     curve_start = 0.15, energy_floor = 0.18, energy_influence = 0.4, wave_amplitude = 3,
     wave_period = 10, wave_noise = 0.15, cluster2_energy = 0.65, cluster3_energy = 0.82,
     cluster2_prob = 0.45, cluster3_prob = 0.25\<rparr>"

definition normal_params :: DifficultyParams where
  "normal_params = \<lparr>beat_skip = 2, max_per_cluster = 2, crash_weight = 0.35, car_weight = 0.30,
     slow_weight = 0.15, pickup_ratio = 0.25, min_safe_lanes = 2, density = 0.55,
     curve_start = 0.20, energy_floor = 0.12, energy_influence = 0.6, wave_amplitude = 3,
     wave_period = 14, wave_noise = 0.15, cluster2_energy = 0.65, cluster3_energy = 0.82,
     cluster2_prob = 0.45, cluster3_prob = 0.25\<rparr>"

definition hard_params :: DifficultyParams where
  "hard_params = \<lparr>beat_skip = 1, max_per_cluster = 3, crash_weight = 0.45, car_weight = 0.30,
     slow_weight = 0.10, pickup_ratio = 0.12, min_safe_lanes = 1, density = 0.55,
     curve_start = 0.25, energy_floor = 0.08, energy_influence = 0.7, wave_amplitude = 3,
     wave_period = 16, wave_noise = 0.20, cluster2_energy = 0.55, cluster3_energy = 0.75,
     cluster2_prob = 0.55, cluster3_prob = 0.35\<rparr>"

text \<open>\<^verbatim>\<open>CourseEvent(t=..., lane=..., type=...)\<close>: \<open>lead\<close> defaults to \<open>None\<close>.\<close>

definition mk_event :: "real \<Rightarrow> int \<Rightarrow> string \<Rightarrow> CourseEvent" where
  "mk_event tm l ty = \<lparr>t = tm, lane = l, type = ty, lead = None\<rparr>"

section \<open>Scoring\<close>

definition SCORE_WEIGHTS :: "(string \<times> real) list" where
  "SCORE_WEIGHTS =
     [(''beat_sync'', 0.25), (''flow'', 0.20), (''difficulty_curve'', 0.15),
      (''type_variety'', 0.10), (''lane_coverage'', 0.10), (''energy_match'', 0.10),
      (''cull_rate'', 0.10)]"

definition weight :: "string \<Rightarrow> real" where
  "weight k = the (map_of SCORE_WEIGHTS k)"

text \<open>The property \<^verbatim>\<open>ScoreBreakdown.total\<close>.\<close>

definition total :: "ScoreBreakdown \<Rightarrow> real" where
  "total s =
     beat_sync s * weight ''beat_sync'' +
     flow s * weight ''flow'' +
     difficulty_curve s * weight ''difficulty_curve'' +
     type_variety s * weight ''type_variety'' +
     lane_coverage s * weight ''lane_coverage'' +
     energy_match s * weight ''energy_match'' +
     cull_rate s * weight ''cull_rate''"

text \<open>\<^verbatim>\<open>ScoreBreakdown()\<close>: every field defaults to \<open>0.0\<close>.\<close>

definition default_scores :: ScoreBreakdown where
  "default_scores = \<lparr>beat_sync = 0, flow = 0, difficulty_curve = 0, type_variety = 0,
     lane_coverage = 0, energy_match = 0, cull_rate = 0\<rparr>"

text \<open>
  \<^verbatim>\<open>pearson_correlation(x, y)\<close>. The sums index \<open>y\<close> up to \<open>len(x)\<close>, which raises
  when \<open>y\<close> is shorter.
\<close>

definition pearson_correlation :: "real list \<Rightarrow> real list \<Rightarrow> py_error + real" where
  "pearson_correlation x y =
     (let n = length x
      in if n < 2 then Inr 0
         else if length y < n then Inl IndexError
         else
           let mean_x = sum_list x / real n;
               mean_y = sum_list y / real n;
               num = (\<Sum>i\<leftarrow>[0..<n]. (x ! i - mean_x) * (y ! i - mean_y));
               den_x = sqrt (\<Sum>i\<leftarrow>[0..<n]. (x ! i - mean_x)\<^sup>2);
               den_y = sqrt (\<Sum>i\<leftarrow>[0..<n]. (y ! i - mean_y)\<^sup>2)
           in if den_x = 0 \<or> den_y = 0 then Inr 0 else Inr (num / (den_x * den_y)))"

text \<open>1. Beat sync.\<close>

definition beat_sync_score :: "CourseEvent list \<Rightarrow> real list \<Rightarrow> real" where
  "beat_sync_score all_events bs =
     (if all_events \<noteq> [] then
        (let synced =
               length (filter (\<lambda>e. find_nearest_beat bs (t e) \<le> BEAT_SNAP_WINDOW_S) all_events)
         in min 10 ((real synced / real (length all_events)) * 10))
      else 0)"

text \<open>
  2. Flow. The first loop collapses the sorted obstacles to the first lane of every time
  group (\<open>fg\<close> is \<^verbatim>\<open>flow_groups\<close>, \<open>ct\<close> is \<^verbatim>\<open>current_t\<close>, \<open>fl\<close> is \<^verbatim>\<open>first_lane\<close>); the
  second walks the consecutive pairs with the state
  \<open>(small_steps, total_transitions, reversals, directional_moves, prev_dir)\<close>.
\<close>

fun flow_group_loop :: "CourseEvent list \<Rightarrow> int list \<Rightarrow> real \<Rightarrow> int \<Rightarrow> int list" where
  "flow_group_loop [] fg ct fl = (if 0 \<le> fl then fg @ [fl] else fg)"
| "flow_group_loop (e # es) fg ct fl =
     (if \<bar>t e - ct\<bar> < 0.05 then flow_group_loop es fg ct fl
      else flow_group_loop es (if 0 \<le> fl then fg @ [fl] else fg) (t e) (lane e))"

definition flow_groups_of :: "CourseEvent list \<Rightarrow> int list" where
  "flow_groups_of obstacle_events = flow_group_loop (sort_key t obstacle_events) [] (- 999) (- 1)"

fun flow_transitions ::
  "int list \<Rightarrow> nat \<times> nat \<times> nat \<times> nat \<times> int \<Rightarrow> nat \<times> nat \<times> nat \<times> nat \<times> int" where
  "flow_transitions (a # b # rest) (ss, tt, rv, dm, pd) =
     (let diff = b - a;
          tt' = tt + 1;
          ss' = (if \<bar>diff\<bar> \<le> 1 then ss + 1 else ss)
      in if diff \<noteq> 0 then
           (let direction = (if 0 < diff then 1 else - 1);
                dm' = dm + 1;
                rv' = (if pd \<noteq> 0 \<and> direction \<noteq> pd then rv + 1 else rv)
            in flow_transitions (b # rest) (ss', tt', rv', dm', direction))
         else flow_transitions (b # rest) (ss', tt', rv, dm, pd))"
| "flow_transitions fg st = st"

definition flow_score :: "CourseEvent list \<Rightarrow> real" where
  "flow_score obstacle_events =
     (if 3 \<le> length obstacle_events then
        (let flow_groups = flow_groups_of obstacle_events
         in if 3 \<le> length flow_groups then
              (case flow_transitions flow_groups (0, 0, 0, 0, 0) of
                 (small_steps, total_transitions, reversals, directional_moves, prev_dir) \<Rightarrow>
                   let step_score = real small_steps / real (max 1 total_transitions);
                       reversal_rate = real reversals / real (max 1 directional_moves);
                       reversal_penalty = reversal_rate * 0.4;
                       raw = step_score - reversal_penalty
                   in min 10 (max 0 (raw * 10.5)))
            else 10)
      else if length obstacle_events \<le> 2 then 10
      else 8)"

text \<open>3. Difficulty curve.\<close>

definition difficulty_curve_score :: "CourseEvent list \<Rightarrow> real \<Rightarrow> py_error + real" where
  "difficulty_curve_score obstacle_events duration =
     (if obstacle_events \<noteq> [] \<and> 0 < duration then
        (let window_dur = duration / real DIFFICULTY_CURVE_WINDOWS;
             densities =
               map (\<lambda>w. length (filter (\<lambda>e. real w * window_dur \<le> t e
                                            \<and> t e < (real w + 1) * window_dur) obstacle_events))
                 [0..<DIFFICULTY_CURVE_WINDOWS]
         in if 0 < sum_list densities then
              (case pearson_correlation (map real [0..<length densities]) (map real densities) of
                 Inl err \<Rightarrow> Inl err
               | Inr corr \<Rightarrow> Inr (min 10 (max 0 ((corr + 1) * 5))))
            else Inr 0)
      else Inr 0)"

text \<open>
  4. Type variety. \<^verbatim>\<open>type_counts\<close> is a dictionary in insertion order;
  \<open>count_type\<close> is \<^verbatim>\<open>type_counts[t] = type_counts.get(t, 0) + 1\<close>.
\<close>

fun count_type :: "(string \<times> nat) list \<Rightarrow> string \<Rightarrow> (string \<times> nat) list" where
  "count_type [] k = [(k, 1)]"
| "count_type ((k', c) # rest) k =
     (if k' = k then (k', c + 1) # rest else (k', c) # count_type rest k)"

definition type_key :: "CourseEvent \<Rightarrow> string" where
  "type_key e = (if is_pickup e then ''pickup'' else type e)"

definition type_counts_of :: "CourseEvent list \<Rightarrow> (string \<times> nat) list" where
  "type_counts_of all_events = foldl count_type [] (map type_key all_events)"

definition type_variety_score :: "CourseEvent list \<Rightarrow> real" where
  "type_variety_score all_events =
     (if all_events \<noteq> [] then
        (let type_counts = type_counts_of all_events;
             n = length all_events;
             num_types = length type_counts
         in if 1 < num_types then
              (let entropy = - (\<Sum>c\<leftarrow>map snd type_counts.
                                   (real c / real n) * log 2 (real c / real n));
                   max_entropy = log 2 (real (min num_types 4))
               in min 10 ((entropy / max_entropy) * 10))
            else 2)
      else 0)"

text \<open>
  5. Lane coverage. \<^verbatim>\<open>lane_counts[e.lane] += 1\<close> on a list of length 4: a negative
  index counts from the end, anything outside \<open>-4 .. 3\<close> raises.
\<close>

definition bump_lane :: "nat list \<Rightarrow> int \<Rightarrow> py_error + nat list" where
  "bump_lane lane_counts l =
     (let n = int (length lane_counts);
          j = (if l < 0 then n + l else l)
      in if 0 \<le> j \<and> j < n then Inr (lane_counts[nat j := lane_counts ! nat j + 1])
         else Inl IndexError)"

fun count_lanes :: "CourseEvent list \<Rightarrow> nat list \<Rightarrow> py_error + nat list" where
  "count_lanes [] lane_counts = Inr lane_counts"
| "count_lanes (e # es) lane_counts =
     (case bump_lane lane_counts (lane e) of
        Inl err \<Rightarrow> Inl err
      | Inr lane_counts' \<Rightarrow> count_lanes es lane_counts')"

definition lane_coverage_score :: "CourseEvent list \<Rightarrow> py_error + real" where
  "lane_coverage_score all_events =
     (if all_events \<noteq> [] then
        (case count_lanes all_events (replicate (nat LANE_COUNT) 0) of
           Inl err \<Rightarrow> Inl err
         | Inr lane_counts \<Rightarrow>
             let n = sum_list lane_counts
             in if 0 < n then
                  (let expected = real n / real_of_int LANE_COUNT;
                       deviation = (\<Sum>c\<leftarrow>lane_counts. (real c - expected)\<^sup>2) / expected
                   in Inr (min 10 (max 0 (10 - deviation * 2))))
                else Inr 0)
      else Inr 0)"

text \<open>
  6. Energy match. \<open>py_slice xs i j\<close> is \<^verbatim>\<open>xs[i:j]\<close> for \<open>0 \<le> i\<close>, the
  only case the scorer produces. The index computations divide by \<open>res_ms\<close>.
\<close>

definition py_slice :: "'a list \<Rightarrow> int \<Rightarrow> int \<Rightarrow> 'a list" where
  "py_slice xs i j = take (nat (j - i)) (drop (nat i) xs)"

definition energy_match_score ::
  "CourseEvent list \<Rightarrow> real \<Rightarrow> int \<Rightarrow> int list \<Rightarrow> py_error + real" where
  "energy_match_score all_events duration res_ms en =
     (if all_events \<noteq> [] \<and> 0 < duration then
        (let num_windows = max 2 (py_int (duration / ENERGY_WINDOW_S));
             window_dur = duration / real_of_int num_windows;
             windows = [0..<nat num_windows]
         in if res_ms = 0 then Inl ZeroDivisionError
            else
              (let spawn_densities =
                     map (\<lambda>w. length (filter (\<lambda>e. real w * window_dur \<le> t e
                                                  \<and> t e < (real w + 1) * window_dur) all_events))
                       windows;
                   energy_averages =
                     map (\<lambda>w.
                            let t_start = real w * window_dur;
                                t_end = (real w + 1) * window_dur;
                                i_start0 = py_int (t_start * 1000 / real_of_int res_ms);
                                i_end0 = py_int (t_end * 1000 / real_of_int res_ms);
                                i_start = max 0 (min i_start0 (int (length en) - 1));
                                i_end = max (i_start + 1) (min i_end0 (int (length en)))
                            in real_of_int (sum_list (py_slice en i_start i_end))
                                 / real_of_int (max 1 (i_end - i_start)))
                       windows
               in if 2 \<le> length spawn_densities then
                    (case pearson_correlation (map real spawn_densities) energy_averages of
                       Inl err \<Rightarrow> Inl err
                     | Inr corr \<Rightarrow> Inr (min 10 (max 0 ((corr + 1) * 5))))
                  else Inr 5))
      else Inr 0)"

text \<open>7. Cull rate.\<close>

definition cull_rate_score :: "int \<Rightarrow> int \<Rightarrow> real" where
  "cull_rate_score cull_count total_generated =
     (if 0 < total_generated then
        (let cull_ratio = real_of_int cull_count / real_of_int total_generated
         in min 10 (max 0 (10 - cull_ratio * 33.3)))
      else 10)"

text \<open>
  \<^verbatim>\<open>compute_scores\<close>. The early return for an empty list comes first; the sub-scores
  are computed in the source's order, so the first exception wins.
\<close>

definition compute_scores ::
  "CourseEvent list \<Rightarrow> BeatData \<Rightarrow> int \<Rightarrow> int \<Rightarrow> py_error + ScoreBreakdown" where
  "compute_scores events bd cull_count total_generated =
     (if events = [] then Inr default_scores
      else
        let obstacle_events = obstacles_of events
        in case difficulty_curve_score obstacle_events (duration_s bd) of
             Inl err \<Rightarrow> Inl err
           | Inr dc \<Rightarrow>
               (case lane_coverage_score events of
                  Inl err \<Rightarrow> Inl err
                | Inr lc \<Rightarrow>
                    (case energy_match_score events (duration_s bd) (resolution_ms bd)
                            (energy bd) of
                       Inl err \<Rightarrow> Inl err
                     | Inr em \<Rightarrow>
                         Inr \<lparr>beat_sync = beat_sync_score events (beats bd),
                              flow = flow_score obstacle_events,
                              difficulty_curve = dc,
                              type_variety = type_variety_score events,
                              lane_coverage = lc,
                              energy_match = em,
                              cull_rate = cull_rate_score cull_count total_generated\<rparr>)))"

section \<open>Rhythm zone post-processing\<close>

definition GAME_WIDTH :: real where
  "GAME_WIDTH = 1920"

definition OBSTACLE_SPAWN_MARGIN :: real where
  "OBSTACLE_SPAWN_MARGIN = 120"

definition KILL_ZONE_X :: real where
  "KILL_ZONE_X = 200"

definition ROAD_BASE_SPEED :: real where
  "ROAD_BASE_SPEED = 1000"

definition CAR_SPEED_FACTOR :: real where
  "CAR_SPEED_FACTOR = 0.65"

definition SPAWN_X :: real where
  "SPAWN_X = GAME_WIDTH + OBSTACLE_SPAWN_MARGIN"

definition CAR_SPEED :: real where
  "CAR_SPEED = ROAD_BASE_SPEED * (1 - CAR_SPEED_FACTOR)"

text \<open>
  The random source is a sequence of draws of \<^verbatim>\<open>rng.random()\<close>: a draw reads the head,
  the rest is the new state.
\<close>

type_synonym rng = "nat \<Rightarrow> real"

definition rng_random :: "rng \<Rightarrow> real \<times> rng" where
  "rng_random r = (r 0, \<lambda>n. r (Suc n))"

text \<open>\<^verbatim>\<open>min(xs, key=...)\<close> on a non-empty list: the first element with the least key.\<close>

fun min_by_key :: "('a \<Rightarrow> real) \<Rightarrow> 'a \<Rightarrow> 'a list \<Rightarrow> 'a" where
  "min_by_key key best [] = best"
| "min_by_key key best (x # xs) = min_by_key key (if key x < key best then x else best) xs"

text \<open>The loop of \<^verbatim>\<open>add_car_crash_beats\<close> over the car events.\<close>

fun crash_beat_loop ::
  "CourseEvent list \<Rightarrow> real list \<Rightarrow> rng \<Rightarrow> real \<Rightarrow> CourseEvent list
     \<Rightarrow> CourseEvent list \<times> rng" where
  "crash_beat_loop [] bs r car_crash_prob new_events = (new_events, r)"
| "crash_beat_loop (car_ev # rest) bs r car_crash_prob new_events =
     (case rng_random r of
        (u, r') \<Rightarrow>
          if car_crash_prob < u then crash_beat_loop rest bs r' car_crash_prob new_events
          else
            let car_t = t car_ev;
                candidate_beats = filter (\<lambda>b. 1 \<le> car_t - b \<and> car_t - b \<le> 3) bs
            in (case candidate_beats of
                  [] \<Rightarrow> crash_beat_loop rest bs r' car_crash_prob new_events
                | b0 # others \<Rightarrow>
                    let collision_t = min_by_key (\<lambda>b. \<bar>(car_t - b) - 2\<bar>) b0 others;
                        time_before_kz = car_t - collision_t;
                        car_x_at_collision = KILL_ZONE_X + CAR_SPEED * time_before_kz;
                        crash_travel = SPAWN_X - car_x_at_collision
                    in if crash_travel \<le> 0
                       then crash_beat_loop rest bs r' car_crash_prob new_events
                       else
                         let crash_lead = crash_travel / ROAD_BASE_SPEED
                         in crash_beat_loop rest bs r' car_crash_prob
                              (new_events @
                                 [\<lparr>t = round3 collision_t, lane = lane car_ev,
                                   type = ''car_crash_beat'',
                                   lead = Some (round3 crash_lead)\<rparr>])))"

definition add_car_crash_beats ::
  "CourseEvent list \<Rightarrow> BeatData \<Rightarrow> rng \<Rightarrow> real \<Rightarrow> CourseEvent list \<times> rng" where
  "add_car_crash_beats events bd r car_crash_prob =
     (case crash_beat_loop (filter (\<lambda>e. type e = ''car'') events) (beats bd) r car_crash_prob []
      of (new_events, r') \<Rightarrow> (sort_key t (events @ new_events), r'))"

section \<open>Event generation: candidate beats and section quotas\<close>

text \<open>
  Steps 1 and 2 of \<^verbatim>\<open>generate_events\<close>. The candidate loop tests the playable window
  before it computes \<^verbatim>\<open>i % params.beat_skip\<close>, which raises for a zero stride.
\<close>

fun candidate_loop ::
  "(nat \<times> real) list \<Rightarrow> real \<Rightarrow> real \<Rightarrow> int \<Rightarrow> real list \<Rightarrow> py_error + real list" where
  "candidate_loop [] playable_start playable_end skip acc = Inr acc"
| "candidate_loop ((i, beat_time) # rest) playable_start playable_end skip acc =
     (if beat_time < playable_start \<or> playable_end < beat_time
      then candidate_loop rest playable_start playable_end skip acc
      else if skip = 0 then Inl ZeroDivisionError
      else if int i mod skip \<noteq> 0
      then candidate_loop rest playable_start playable_end skip acc
      else candidate_loop rest playable_start playable_end skip (acc @ [beat_time]))"

text \<open>Evaluating a list of results in order: the first exception wins.\<close>

fun sequence :: "(py_error + 'a) list \<Rightarrow> py_error + 'a list" where
  "sequence [] = Inr []"
| "sequence (Inl err # rs) = Inl err"
| "sequence (Inr v # rs) = (case sequence rs of Inl err \<Rightarrow> Inl err | Inr vs \<Rightarrow> Inr (v # vs))"

definition section_energies_of :: "BeatData \<Rightarrow> py_error + real list" where
  "section_energies_of bd =
     (let playable_start = INTRO_SKIP_S;
          playable_end = duration_s bd - OUTRO_SKIP_S;
          section_dur = (playable_end - playable_start) / real NUM_SECTIONS
      in sequence
           (map (\<lambda>s. let s_start = playable_start + real s * section_dur;
                         s_mid = s_start + section_dur / 2
                     in sample_at (energy bd) s_mid (resolution_ms bd))
              [0..<NUM_SECTIONS]))"

text \<open>The energy scaling of one section's quota.\<close>

definition energy_scale :: "real list \<Rightarrow> real \<Rightarrow> nat \<Rightarrow> real" where
  "energy_scale section_energies avg_section_energy s =
     (if 0 < avg_section_energy
      then 0.7 + 0.6 * (section_energies ! s / max 0.01 (avg_section_energy * 2))
      else 1.0)"

text \<open>
  The list \<^verbatim>\<open>sections\<close> of \<open>(s_beats, quota)\<close> built by step 2, here with the
  \<^verbatim>\<open>energy_scale\<close> applied to each quota as a third component.
\<close>

definition section_quotas ::
  "BeatData \<Rightarrow> DifficultyParams \<Rightarrow> py_error + (real list \<times> int \<times> real) list" where
  "section_quotas bd params =
     (let playable_start = INTRO_SKIP_S;
          playable_end = duration_s bd - OUTRO_SKIP_S
      in case candidate_loop (enumerate 0 (beats bd)) playable_start playable_end
                (beat_skip params) [] of
           Inl err \<Rightarrow> Inl err
         | Inr candidate_beats \<Rightarrow>
             if candidate_beats = [] then Inr []
             else
               (case section_energies_of bd of
                  Inl err \<Rightarrow> Inl err
                | Inr section_energies \<Rightarrow>
                    let section_dur = (playable_end - playable_start) / real NUM_SECTIONS;
                        avg_section_energy =
                          sum_list section_energies / real (max 1 (length section_energies))
                    in Inr (map (\<lambda>s.
                          let s_start = playable_start + real s * section_dur;
                              s_end = s_start + section_dur;
                              s_beats = filter (\<lambda>b. s_start \<le> b \<and> b < s_end) candidate_beats;
                              progress = (real s + 0.5) / real NUM_SECTIONS;
                              quota_frac = curve_start params
                                + (1.0 - curve_start params) * progress;
                              scale = energy_scale section_energies avg_section_energy s;
                              quota = max 0 (py_round (real (length s_beats) * density params
                                                        * quota_frac * scale))
                          in (s_beats, quota, scale))
                         [0..<NUM_SECTIONS])))"

section \<open>Predicates used in the statements\<close>

definition score_in_range :: "real \<Rightarrow> bool" where
  "score_in_range v = (0 \<le> v \<and> v \<le> 10)"

definition scores_in_range :: "ScoreBreakdown \<Rightarrow> bool" where
  "scores_in_range s =
     (score_in_range (beat_sync s) \<and> score_in_range (flow s) \<and>
      score_in_range (difficulty_curve s) \<and> score_in_range (type_variety s) \<and>
      score_in_range (lane_coverage s) \<and> score_in_range (energy_match s) \<and>
      score_in_range (cull_rate s) \<and> score_in_range (total s))"

text \<open>
  The lanes a list of events blocks (obstacles only), how many of the four lanes that
  leaves, and the claimed invariants over a list of time groups.
\<close>

definition blocked_lanes_of :: "CourseEvent list \<Rightarrow> int set" where
  "blocked_lanes_of es = set (map lane (obstacles_of es))"

definition safe_lane_count :: "CourseEvent list \<Rightarrow> int" where
  "safe_lane_count es = LANE_COUNT - int (card (blocked_lanes_of es))"

definition groups_safe :: "int \<Rightarrow> (real \<times> CourseEvent list) list \<Rightarrow> bool" where
  "groups_safe msl gs = list_all (\<lambda>g. msl \<le> safe_lane_count (snd g)) gs"

definition safe_lanes_of :: "CourseEvent list \<Rightarrow> int set" where
  "safe_lanes_of es = all_lanes - blocked_lanes_of es"

definition pair_reachable :: "real \<times> CourseEvent list \<Rightarrow> real \<times> CourseEvent list \<Rightarrow> bool" where
  "pair_reachable g1 g2 =
     (\<exists>p \<in> safe_lanes_of (snd g1). \<exists>c \<in> safe_lanes_of (snd g2).
        \<bar>c - p\<bar> \<le> \<lfloor>(fst g2 - fst g1) / 0.3\<rfloor>)"

fun consecutive_reachable :: "(real \<times> CourseEvent list) list \<Rightarrow> bool" where
  "consecutive_reachable (g1 # g2 # gs) =
     (pair_reachable g1 g2 \<and> consecutive_reachable (g2 # gs))"
| "consecutive_reachable gs = True"

text \<open>
  Conditions on an input list: events are simultaneous or at least 50 ms apart (every
  time group is a wall of simultaneous events), no event lies within 50 ms of the
  grouping loop's initial \<^verbatim>\<open>current_group_time = -999.0\<close>, and no two obstacles
  share both time and lane.
\<close>

definition walls :: "CourseEvent list \<Rightarrow> bool" where
  "walls es = (\<forall>a \<in> set es. \<forall>b \<in> set es. t a = t b \<or> 0.05 \<le> \<bar>t a - t b\<bar>)"

definition clear_of_sentinel :: "CourseEvent list \<Rightarrow> bool" where
  "clear_of_sentinel es = (\<forall>e \<in> set es. 0.05 \<le> \<bar>t e - (- 999)\<bar>)"

definition no_stacked_obstacles :: "CourseEvent list \<Rightarrow> bool" where
  "no_stacked_obstacles es = distinct (map (\<lambda>e. (t e, lane e)) (obstacles_of es))"

text \<open>No group has two obstacles in one lane.\<close>

definition groups_unstacked :: "(real \<times> CourseEvent list) list \<Rightarrow> bool" where
  "groups_unstacked gs = list_all (\<lambda>g. distinct (map lane (obstacles_of (snd g)))) gs"

text \<open>A list of groups in which every group is a non-empty wall, 50 ms or more apart.\<close>

definition wall_groups :: "(real \<times> CourseEvent list) list \<Rightarrow> bool" where
  "wall_groups B =
     ((\<forall>g \<in> set B. snd g \<noteq> [] \<and> (\<forall>e \<in> set (snd g). t e = fst g)) \<and>
      sorted_wrt (\<lambda>a b. fst a + 0.05 \<le> fst b) B)"

text \<open>
  What the loop over the time groups leaves of every group: the group's time with the
  events it appends to \<^verbatim>\<open>validated\<close>, in the order of the groups.
\<close>

fun kept_groups ::
  "int \<Rightarrow> (real \<times> CourseEvent list) option \<Rightarrow> (real \<times> CourseEvent list) list \<Rightarrow> nat
     \<Rightarrow> (real \<times> CourseEvent list) list" where
  "kept_groups msl prev [] cc = []"
| "kept_groups msl prev (g # gs) cc =
     (case validate_group msl prev g cc of
        (kept, cc') \<Rightarrow> (fst g, kept) # kept_groups msl (Some g) gs cc')"

definition kept_of :: "int \<Rightarrow> real \<times> CourseEvent list \<Rightarrow> real \<times> CourseEvent list \<Rightarrow> bool" where
  "kept_of msl k g =
     (fst k = fst g \<and> set (snd k) \<subseteq> set (snd g) \<and>
      (msl \<le> safe_lane_count (snd k) \<or> blocked_lanes_of (snd k) = {}))"

section \<open>Concrete inputs used below\<close>

text \<open>A wall of two obstacles and a pickup at \<open>t = 5\<close>.\<close>

definition wall_with_pickup :: "CourseEvent list" where
  "wall_with_pickup =
     [mk_event 5 0 ''crash'', mk_event 5 1 ''car'', mk_event 5 2 ''pickup_ammo'']"

text \<open>A wall of three obstacles at \<open>t = 5\<close>: three obstacle events, one time group.\<close>

definition three_wall :: "CourseEvent list" where
  "three_wall = [mk_event 5 0 ''crash'', mk_event 5 1 ''car'', mk_event 5 2 ''slow'']"

text \<open>A one-minute beat map with a single beat and no signal samples.\<close>

definition quiet_beat_data :: BeatData where
  "quiet_beat_data = \<lparr>resolution_ms = 100, duration_s = 60, beats = [5], bass = [],
     percussive = [], harmonic = [], energy = []\<rparr>"

text \<open>Scenario C: one car at \<open>t = 10\<close> in lane 2 and a beat at \<open>t = 8\<close>.\<close>

definition single_car :: "CourseEvent list" where
  "single_car = [mk_event 10 2 ''car'']"

definition beat_at_eight :: BeatData where
  "beat_at_eight = \<lparr>resolution_ms = 100, duration_s = 60, beats = [8], bass = [],
     percussive = [], harmonic = [], energy = []\<rparr>"

text \<open>A random source whose every draw is \<open>u\<close>.\<close>

definition constant_rng :: "real \<Rightarrow> rng" where
  "constant_rng u = (\<lambda>n. u)"

text \<open>
  A 70 s track sampled every 8 s, so that the midpoints of the eight sections
  (\<open>8, 16, \<dots>, 64\<close> s) fall on the samples \<open>1, 2, \<dots>, 8\<close>: full energy at the first
  midpoint, none at the others. One beat at \<open>t = 5\<close>.
\<close>

definition spike_beat_data :: BeatData where
  "spike_beat_data = \<lparr>resolution_ms = 8000, duration_s = 70, beats = [5], bass = [],
     percussive = [], harmonic = [], energy = [0, 255, 0]\<rparr>"

text \<open>Parameters with \<open>min_safe_lanes\<close> above the lane count, and with none required.\<close>

definition overfull_params :: DifficultyParams where
  "overfull_params = hard_params\<lparr>min_safe_lanes := 5\<rparr>"

definition unguarded_params :: DifficultyParams where
  "unguarded_params = hard_params\<lparr>min_safe_lanes := 0\<rparr>"

definition lone_pickup :: "CourseEvent list" where
  "lone_pickup = [mk_event 5 0 ''pickup_ammo'']"

text \<open>A wall with two obstacles in lane 2.\<close>

definition stacked_wall :: "CourseEvent list" where
  "stacked_wall = [mk_event 5 0 ''crash'', mk_event 5 1 ''car'', mk_event 5 2 ''slow'',
                   mk_event 5 2 ''crash'']"

text \<open>
  Events less than 50 ms apart without being simultaneous: the validator groups them as
  \<open>{0}\<close>, \<open>{0.06, 0.10}\<close>, \<open>{0.12, 0.16}\<close>, \<open>{0.18}\<close>.
\<close>

definition drifting_groups :: "CourseEvent list" where
  "drifting_groups =
     [mk_event 0 1 ''crash'', mk_event 0 2 ''crash'', mk_event 0 3 ''crash'',
      mk_event 0.06 0 ''crash'', mk_event 0.10 3 ''pickup_ammo'',
      mk_event 0.12 0 ''crash'', mk_event 0.16 1 ''crash'',
      mk_event 0.18 0 ''crash'', mk_event 0.18 2 ''crash'']"

text \<open>Two walls 60 ms apart, both within 50 ms of \<open>-999.0\<close>.\<close>

definition sentinel_groups :: "CourseEvent list" where
  "sentinel_groups =
     [mk_event (- 999.04) 1 ''crash'', mk_event (- 999.04) 2 ''crash'',
      mk_event (- 998.98) 0 ''crash'', mk_event (- 998.98) 1 ''crash'']"

text \<open>Two walls half a second apart; validation culls one obstacle of each.\<close>

definition two_walls :: "CourseEvent list" where
  "two_walls =
     [mk_event 5 0 ''crash'', mk_event 5 1 ''car'', mk_event 5 2 ''slow'',
      mk_event 5 3 ''pickup_ammo'', mk_event 5.5 2 ''crash'', mk_event 5.5 3 ''car'']"

text \<open>
  Three walls on consecutive beats a quarter of a second apart; the middle one is a
  single obstacle in lane 0.
\<close>

definition vanishing_group :: "CourseEvent list" where
  "vanishing_group =
     [mk_event 4 1 ''crash'', mk_event 4 2 ''crash'', mk_event 4 3 ''crash'',
      mk_event 4.25 0 ''crash'',
      mk_event 4.5 0 ''crash'', mk_event 4.5 1 ''crash'', mk_event 4.5 2 ''crash'']"

text \<open>Two walls 100 ms apart, the second with two obstacles in lane 3.\<close>

definition stacked_second_wall :: "CourseEvent list" where
  "stacked_second_wall =
     [mk_event 5 0 ''crash'', mk_event 5 1 ''crash'', mk_event 5 2 ''crash'',
      mk_event 5.1 1 ''crash'', mk_event 5.1 2 ''crash'', mk_event 5.1 3 ''crash'',
      mk_event 5.1 3 ''car'']"

text \<open>A wall across all four lanes, then a pickup.\<close>

definition full_wall_then_pickup :: "CourseEvent list" where
  "full_wall_then_pickup =
     [mk_event 5 0 ''crash'', mk_event 5 1 ''crash'', mk_event 5 2 ''crash'',
      mk_event 5 3 ''crash'', mk_event 5.1 0 ''pickup_ammo'']"

section \<open>Path validation: what is culled\<close>

lemma concat_group_by_time:
  "concat (map snd (group_by_time es tgs cgt cg)) = concat (map snd tgs) @ cg @ es"
  by (induction es arbitrary: tgs cgt cg) auto

lemma concat_time_groups: "concat (map snd (time_groups events)) = sort_key t events"
  by (simp add: time_groups_def concat_group_by_time)

lemma enforce_min_safe_step:
  "LANE_COUNT - int (card blocked) < msl \<Longrightarrow> obs \<noteq> [] \<Longrightarrow>
     enforce_min_safe msl obs blocked cc =
       enforce_min_safe msl (butlast obs) (blocked - {lane (last obs)}) (cc + 1)"
  by (rule trans[OF enforce_min_safe.simps]) simp

lemma enforce_min_safe_stop:
  "\<not> (LANE_COUNT - int (card blocked) < msl \<and> obs \<noteq> []) \<Longrightarrow>
     enforce_min_safe msl obs blocked cc = (obs, blocked, cc)"
  by (rule trans[OF enforce_min_safe.simps]) auto

lemma restore_reachability_step:
  "\<not> r \<Longrightarrow> obs \<noteq> [] \<Longrightarrow>
     restore_reachability prev_safe mlc obs blocked cc r =
       restore_reachability prev_safe mlc (butlast obs) (blocked - {lane (last obs)}) (cc + 1)
         (reachable_between prev_safe (all_lanes - (blocked - {lane (last obs)})) mlc)"
  by (rule trans[OF restore_reachability.simps]) (simp add: Let_def)

lemma restore_reachability_stop:
  "\<not> (\<not> r \<and> obs \<noteq> []) \<Longrightarrow>
     restore_reachability prev_safe mlc obs blocked cc r = (obs, cc)"
  by (rule trans[OF restore_reachability.simps]) auto

text \<open>Both culling loops drop a suffix of the obstacle list and count its length.\<close>

lemma enforce_min_safe_culls:
  "enforce_min_safe msl obs blocked cc = (obs', blocked', cc') \<Longrightarrow>
     \<exists>zs. obs = obs' @ zs \<and> cc' = cc + length zs"
proof (induction msl obs blocked cc rule: enforce_min_safe.induct)
  case (1 msl obs blocked cc)
  show ?case
  proof (cases "LANE_COUNT - int (card blocked) < msl \<and> obs \<noteq> []")
    case True
    then have "enforce_min_safe msl (butlast obs) (blocked - {lane (last obs)}) (cc + 1)
        = (obs', blocked', cc')"
      using "1.prems" by (simp add: enforce_min_safe_step)
    from "1.IH"[OF True this] obtain zs
      where zs: "butlast obs = obs' @ zs" "cc' = cc + 1 + length zs"
      by auto
    from True have "obs = butlast obs @ [last obs]" by simp
    with zs have "obs = obs' @ (zs @ [last obs])" "cc' = cc + length (zs @ [last obs])"
      by simp_all
    then show ?thesis by blast
  next
    case False
    then have "obs' = obs" "cc' = cc"
      using "1.prems" by (simp_all add: enforce_min_safe_stop)
    then show ?thesis by simp
  qed
qed

lemma restore_reachability_culls:
  "restore_reachability prev_safe mlc obs blocked cc r = (obs', cc') \<Longrightarrow>
     \<exists>zs. obs = obs' @ zs \<and> cc' = cc + length zs"
proof (induction prev_safe mlc obs blocked cc r rule: restore_reachability.induct)
  case (1 prev_safe mlc obs blocked cc r)
  show ?case
  proof (cases "\<not> r \<and> obs \<noteq> []")
    case True
    then have "restore_reachability prev_safe mlc (butlast obs) (blocked - {lane (last obs)})
        (cc + 1) (reachable_between prev_safe (all_lanes - (blocked - {lane (last obs)})) mlc)
        = (obs', cc')"
      using "1.prems" by (simp add: restore_reachability_step)
    from "1.IH"[OF True refl refl this] obtain zs
      where zs: "butlast obs = obs' @ zs" "cc' = cc + 1 + length zs"
      by auto
    from True have "obs = butlast obs @ [last obs]" by simp
    with zs have "obs = obs' @ (zs @ [last obs])" "cc' = cc + length (zs @ [last obs])"
      by simp_all
    then show ?thesis by blast
  next
    case False
    then have "obs' = obs" "cc' = cc"
      using "1.prems" by (simp_all add: restore_reachability_stop)
    then show ?thesis by simp
  qed
qed

lemma validate_group_culls:
  assumes "validate_group msl prev g cc = (kept, cc')"
  shows "\<exists>ys zs. obstacles_of (snd g) = ys @ zs \<and>
           kept = ys @ filter is_pickup (snd g) \<and> cc' = cc + length zs"
proof -
  obtain obs1 blocked1 cc1
    where e: "enforce_min_safe msl (obstacles_of (snd g))
                (set (map lane (obstacles_of (snd g)))) cc = (obs1, blocked1, cc1)"
    by (metis prod_cases3)
  from enforce_min_safe_culls[OF e] obtain zs1
    where z1: "obstacles_of (snd g) = obs1 @ zs1" "cc1 = cc + length zs1"
    by auto
  show ?thesis
  proof (cases prev)
    case None
    with assms e have "kept = obs1 @ filter is_pickup (snd g)" "cc' = cc1"
      by (auto simp: validate_group_def Let_def)
    with z1 show ?thesis by blast
  next
    case (Some p)
    obtain obs2 cc2
      where r: "restore_reachability (all_lanes - set (map lane (obstacles_of (snd p))))
        (py_int ((fst g - fst p) / LANE_CROSS_TIME_S)) obs1 blocked1 cc1
        (reachable_between (all_lanes - set (map lane (obstacles_of (snd p))))
           (all_lanes - blocked1) (py_int ((fst g - fst p) / LANE_CROSS_TIME_S))) = (obs2, cc2)"
      by (metis surj_pair)
    with assms e Some have kc: "kept = obs2 @ filter is_pickup (snd g)" "cc' = cc2"
      by (auto simp: validate_group_def Let_def)
    from restore_reachability_culls[OF r] obtain zs2
      where z2: "obs1 = obs2 @ zs2" "cc2 = cc1 + length zs2"
      by auto
    from z1 z2 have "obstacles_of (snd g) = obs2 @ (zs2 @ zs1)" "cc2 = cc + length (zs2 @ zs1)"
      by simp_all
    with kc show ?thesis by blast
  qed
qed

lemma validate_groups_culls:
  "validate_groups msl prev gs validated cc = (validated', cc') \<Longrightarrow>
     length validated' + cc' = length validated + cc + length (concat (map snd gs)) \<and>
     mset (filter is_pickup validated') =
       mset (filter is_pickup validated) + mset (filter is_pickup (concat (map snd gs))) \<and>
     mset validated' \<subseteq># mset validated + mset (concat (map snd gs))"
proof (induction gs arbitrary: prev validated cc)
  case Nil
  then show ?case by simp
next
  case (Cons g gs)
  obtain kept cc1 where vg: "validate_group msl prev g cc = (kept, cc1)"
    by (metis surj_pair)
  with Cons.prems
  have rest: "validate_groups msl (Some g) gs (validated @ kept) cc1 = (validated', cc')"
    by simp
  from validate_group_culls[OF vg] obtain ys zs
    where k: "obstacles_of (snd g) = ys @ zs" "kept = ys @ filter is_pickup (snd g)"
      "cc1 = cc + length zs"
    by blast
  have len: "length (snd g) = length (obstacles_of (snd g)) + length (filter is_pickup (snd g))"
    unfolding obstacles_of_def by (simp add: sum_length_filter_compl add.commute)
  have "set ys \<subseteq> set (obstacles_of (snd g))" using k(1) by simp
  then have nopick: "filter is_pickup ys = []"
    unfolding obstacles_of_def by (auto simp: filter_empty_conv)
  have "mset (snd g) = mset (obstacles_of (snd g)) + mset (filter is_pickup (snd g))"
    unfolding obstacles_of_def by (simp add: union_commute)
  then have "mset (snd g) = mset kept + mset zs"
    using k(1,2) by (simp add: ac_simps)
  then have sub: "mset kept \<subseteq># mset (snd g)"
    by simp
  from Cons.IH[OF rest] len k nopick sub show ?case
    by (auto simp: subset_mset.add_mono intro: subset_mset.order_trans)
qed

text \<open>
  C10. \<^verbatim>\<open>validate_paths\<close> returns \<open>(validated, cull_count)\<close> with
  \<open>len(validated) + cull_count = len(events)\<close>; the pickups of the input are the pickups
  of the output, the output holds only events of the input (so whatever is missing is an
  obstacle), and the output is in nondecreasing time order.
\<close>

theorem validate_paths_accounting:
  "length (fst (validate_paths events params)) + snd (validate_paths events params)
     = length events \<and>
   mset (filter is_pickup (fst (validate_paths events params)))
     = mset (filter is_pickup events) \<and>
   mset (fst (validate_paths events params)) \<subseteq># mset events \<and>
   filter_mset is_pickup (mset events - mset (fst (validate_paths events params))) = {#} \<and>
   sorted (map t (fst (validate_paths events params)))"
proof (cases "events = []")
  case True
  then show ?thesis by (simp add: validate_paths_def)
next
  case False
  obtain validated cc
    where v: "validate_groups (min_safe_lanes params) None (time_groups events) [] 0
                = (validated, cc)"
    by (metis surj_pair)
  with False have r: "validate_paths events params = (sort_key t validated, cc)"
    by (simp add: validate_paths_def)
  have ms: "mset (concat (map snd (time_groups events))) = mset events"
    by (simp add: concat_time_groups)
  have ln: "length (concat (map snd (time_groups events))) = length events"
    by (simp add: concat_time_groups)
  have pk: "mset (filter is_pickup (concat (map snd (time_groups events))))
              = mset (filter is_pickup events)"
    by (simp add: concat_time_groups)
  from validate_groups_culls[OF v] ms ln pk
  have a: "length validated + cc = length events"
    and b: "mset (filter is_pickup validated) = mset (filter is_pickup events)"
    and c: "mset validated \<subseteq># mset events"
    by simp_all
  from b have "filter_mset is_pickup (mset events) = filter_mset is_pickup (mset validated)"
    by simp
  then have d: "filter_mset is_pickup (mset events - mset validated) = {#}"
    by simp
  from a b c d show ?thesis
    by (simp add: r)
qed

theorem validate_paths_accounting_witness:
  "validate_paths wall_with_pickup easy_params
     = ([mk_event 5 0 ''crash'', mk_event 5 2 ''pickup_ammo''], 1) \<and>
   (length (fst (validate_paths wall_with_pickup easy_params))
      + snd (validate_paths wall_with_pickup easy_params) = length wall_with_pickup \<and>
    mset (filter is_pickup (fst (validate_paths wall_with_pickup easy_params)))
      = mset (filter is_pickup wall_with_pickup) \<and>
    mset (fst (validate_paths wall_with_pickup easy_params)) \<subseteq># mset wall_with_pickup \<and>
    filter_mset is_pickup
      (mset wall_with_pickup - mset (fst (validate_paths wall_with_pickup easy_params))) = {#} \<and>
    sorted (map t (fst (validate_paths wall_with_pickup easy_params))))"
proof -
  have ev: "validate_paths wall_with_pickup easy_params
     = ([mk_event 5 0 ''crash'', mk_event 5 2 ''pickup_ammo''], 1)"
    by code_simp
  show ?thesis
    by (rule conjI[OF ev validate_paths_accounting[of wall_with_pickup easy_params]])
qed

section \<open>Path validation: the time groups of the returned list\<close>

lemma group_by_time_same:
  "\<forall>e \<in> set xs. t e = cgt \<Longrightarrow>
     group_by_time (xs @ es) tgs cgt cg = group_by_time es tgs cgt (cg @ xs)"
  by (induction xs arbitrary: cg) auto

lemma group_by_time_blocks:
  assumes "wall_groups B" "cg \<noteq> []" "\<forall>g \<in> set B. cgt + 0.05 \<le> fst g"
  shows "group_by_time (concat (map snd B)) tgs cgt cg = tgs @ (cgt, cg) # B"
  using assms
proof (induction B arbitrary: tgs cgt cg)
  case Nil
  then show ?case by simp
next
  case (Cons g B)
  obtain gt b where g: "g = (gt, b)" by (cases g)
  from Cons.prems(1) g have bne: "b \<noteq> []" and bt: "\<forall>e \<in> set b. t e = gt"
    and wB: "wall_groups B" and later: "\<forall>h \<in> set B. gt + 0.05 \<le> fst h"
    by (auto simp: wall_groups_def)
  from bne obtain e b' where b: "b = e # b'" by (cases b) auto
  from Cons.prems(3) g have gap: "cgt + 0.05 \<le> gt" by simp
  from bt b have te: "t e = gt" and bt': "\<forall>x \<in> set b'. t x = gt" by auto
  from gap te have far: "\<not> \<bar>t e - cgt\<bar> < 0.05" by simp
  have "group_by_time (concat (map snd (g # B))) tgs cgt cg
      = group_by_time (b' @ concat (map snd B)) (tgs @ [(cgt, cg)]) gt [e]"
    using far Cons.prems(2) te by (simp add: g b)
  also have "\<dots> = group_by_time (concat (map snd B)) (tgs @ [(cgt, cg)]) gt ([e] @ b')"
    by (rule group_by_time_same[OF bt'])
  also have "\<dots> = (tgs @ [(cgt, cg)]) @ (gt, [e] @ b') # B"
    by (rule Cons.IH[OF wB _ later]) simp
  finally show ?case by (simp add: g b)
qed

lemma time_groups_blocks:
  assumes "wall_groups B" "\<forall>g \<in> set B. 0.05 \<le> \<bar>fst g - (- 999)\<bar>"
  shows "group_by_time (concat (map snd B)) [] (- 999) [] = B"
proof (cases B)
  case Nil
  then show ?thesis by simp
next
  case (Cons g B')
  obtain gt b where g: "g = (gt, b)" by (cases g)
  from assms(1) Cons g have bne: "b \<noteq> []" and bt: "\<forall>e \<in> set b. t e = gt"
    and wB: "wall_groups B'" and later: "\<forall>h \<in> set B'. gt + 0.05 \<le> fst h"
    by (auto simp: wall_groups_def)
  from bne obtain e b' where b: "b = e # b'" by (cases b) auto
  from bt b have te: "t e = gt" and bt': "\<forall>x \<in> set b'. t x = gt" by auto
  from assms(2) Cons g te have far: "\<not> \<bar>t e - (- 999)\<bar> < 0.05" by simp
  have "group_by_time (concat (map snd B)) [] (- 999) []
      = group_by_time (b' @ concat (map snd B')) [] gt [e]"
    using far te by (simp add: Cons g b)
  also have "\<dots> = group_by_time (concat (map snd B')) [] gt ([e] @ b')"
    by (rule group_by_time_same[OF bt'])
  also have "\<dots> = [] @ (gt, [e] @ b') # B'"
    by (rule group_by_time_blocks[OF wB _ later]) simp
  finally show ?thesis by (simp add: Cons g b)
qed

lemma wall_groups_Nil: "wall_groups []"
  by (simp add: wall_groups_def)

lemma wall_groups_Cons:
  "wall_groups (g # B) \<longleftrightarrow>
     snd g \<noteq> [] \<and> (\<forall>e \<in> set (snd g). t e = fst g) \<and>
     (\<forall>h \<in> set B. fst g + 0.05 \<le> fst h) \<and> wall_groups B"
  unfolding wall_groups_def by (simp only: sorted_wrt.simps list.set ball_simps) blast

lemma walls_Cons:
  "walls (e # es) \<longleftrightarrow> (\<forall>b \<in> set es. t e = t b \<or> 0.05 \<le> \<bar>t e - t b\<bar>) \<and> walls es"
proof
  assume "walls (e # es)"
  then show "(\<forall>b \<in> set es. t e = t b \<or> 0.05 \<le> \<bar>t e - t b\<bar>) \<and> walls es"
    unfolding walls_def by simp
next
  assume a: "(\<forall>b \<in> set es. t e = t b \<or> 0.05 \<le> \<bar>t e - t b\<bar>) \<and> walls es"
  show "walls (e # es)"
    unfolding walls_def
  proof (intro ballI)
    fix x y assume x: "x \<in> set (e # es)" and y: "y \<in> set (e # es)"
    consider "x = e" "y = e" | "x = e" "y \<in> set es" | "x \<in> set es" "y = e"
      | "x \<in> set es" "y \<in> set es"
      using x y by auto
    then show "t x = t y \<or> 0.05 \<le> \<bar>t x - t y\<bar>"
    proof cases
      case 1
      then show ?thesis by simp
    next
      case 2
      with a show ?thesis by blast
    next
      case 3
      with a have "t e = t x \<or> 0.05 \<le> \<bar>t e - t x\<bar>" by blast
      with 3 show ?thesis by (auto simp: abs_minus_commute)
    next
      case 4
      with a show ?thesis unfolding walls_def by blast
    qed
  qed
qed

lemma sorted_walls_blocks:
  assumes "sorted (map t es)" "walls es"
  shows "\<exists>B. wall_groups B \<and> concat (map snd B) = es"
  using assms
proof (induction es)
  case Nil
  show ?case using wall_groups_Nil by (intro exI[of _ "[]"]) simp
next
  case (Cons e es)
  from Cons.prems(1) have srt: "sorted (map t es)" and le_all: "\<forall>x \<in> set es. t e \<le> t x"
    by simp_all
  from Cons.prems(2) have w: "walls es"
    and alt_all: "\<forall>b \<in> set es. t e = t b \<or> 0.05 \<le> \<bar>t e - t b\<bar>"
    by (simp_all add: walls_Cons)
  from Cons.IH[OF srt w] obtain B where B: "wall_groups B" "concat (map snd B) = es" by blast
  show ?case
  proof (cases B)
    case Nil
    with B have "es = []" by simp
    moreover have "wall_groups [(t e, [e])]"
      by (simp add: wall_groups_Cons wall_groups_Nil)
    ultimately show ?thesis by (intro exI[of _ "[(t e, [e])]"]) simp
  next
    case BC: (Cons g B')
    from B(1) BC have bne: "snd g \<noteq> []" and bt: "\<forall>x \<in> set (snd g). t x = fst g"
      and later: "\<forall>h \<in> set B'. fst g + 0.05 \<le> fst h" and wB: "wall_groups B'"
      by (simp_all add: wall_groups_Cons)
    from bne obtain x where x: "x \<in> set (snd g)" by (cases "snd g") auto
    with B(2) BC have xes: "x \<in> set es" by auto
    from x bt have tx: "t x = fst g" by simp
    from le_all xes have le: "t e \<le> t x" by simp
    from alt_all xes have alt: "t e = t x \<or> 0.05 \<le> \<bar>t e - t x\<bar>" by simp
    show ?thesis
    proof (cases "t e = fst g")
      case True
      have "wall_groups ((fst g, e # snd g) # B')"
        using bt later wB True by (simp add: wall_groups_Cons)
      moreover have "concat (map snd ((fst g, e # snd g) # B')) = e # es"
        using B(2) BC by simp
      ultimately show ?thesis by blast
    next
      case False
      with le alt tx have gap: "t e + 0.05 \<le> fst g" by linarith
      have "\<forall>h \<in> set B. t e + 0.05 \<le> fst h"
      proof
        fix h assume "h \<in> set B"
        with BC have "h = g \<or> h \<in> set B'" by simp
        with gap later show "t e + 0.05 \<le> fst h" by fastforce
      qed
      then have "wall_groups ((t e, [e]) # B)"
        using B(1) by (simp add: wall_groups_Cons)
      moreover have "concat (map snd ((t e, [e]) # B)) = e # es"
        using B(2) by simp
      ultimately show ?thesis by blast
    qed
  qed
qed

lemma walls_sort: "walls (sort_key t events) = walls events"
  by (simp add: walls_def)

lemma time_groups_walls:
  assumes "walls events" "clear_of_sentinel events"
  shows "wall_groups (time_groups events)"
proof -
  have s: "sorted (map t (sort_key t events))" by (rule sorted_sort_key)
  have w: "walls (sort_key t events)" using assms(1) by (simp add: walls_sort)
  from sorted_walls_blocks[OF s w] obtain B
    where B: "wall_groups B" "concat (map snd B) = sort_key t events" by blast
  have "\<forall>g \<in> set B. 0.05 \<le> \<bar>fst g - (- 999)\<bar>"
  proof
    fix g assume g: "g \<in> set B"
    with B(1) have "snd g \<noteq> []" and gt: "\<forall>e \<in> set (snd g). t e = fst g"
      by (simp_all add: wall_groups_def)
    then obtain e where e: "e \<in> set (snd g)" by (cases "snd g") auto
    with g have "e \<in> set (concat (map snd B))" by auto
    with B(2) have "e \<in> set events" by simp
    with assms(2) have "0.05 \<le> \<bar>t e - (- 999)\<bar>"
      by (simp add: clear_of_sentinel_def)
    with gt e show "0.05 \<le> \<bar>fst g - (- 999)\<bar>" by simp
  qed
  from time_groups_blocks[OF B(1) this] B(2) have "time_groups events = B"
    by (simp add: time_groups_def)
  with B(1) show ?thesis by simp
qed

text \<open>The culling loops keep \<open>blocked_lanes\<close> exact when no lane is blocked twice.\<close>

lemma distinct_lanes_butlast:
  assumes "distinct (map lane obs)" "obs \<noteq> []"
  shows "set (map lane obs) - {lane (last obs)} = set (map lane (butlast obs))"
    and "distinct (map lane (butlast obs))"
proof -
  from assms(2) have o: "obs = butlast obs @ [last obs]" by simp
  from assms(1) have d: "distinct (map lane (butlast obs @ [last obs]))"
    by (subst (asm) o) simp
  then show "distinct (map lane (butlast obs))" by simp
  from d have "lane (last obs) \<notin> set (map lane (butlast obs))" by auto
  moreover have "set (map lane obs) = insert (lane (last obs)) (set (map lane (butlast obs)))"
    by (subst o) simp
  ultimately show "set (map lane obs) - {lane (last obs)} = set (map lane (butlast obs))"
    by auto
qed

lemma enforce_min_safe_exact:
  assumes "enforce_min_safe msl obs blocked cc = (obs', blocked', cc')"
    and "distinct (map lane obs)" and "blocked = set (map lane obs)"
  shows "blocked' = set (map lane obs') \<and> distinct (map lane obs') \<and>
         (msl \<le> LANE_COUNT - int (card blocked') \<or> obs' = [])"
  using assms
proof (induction msl obs blocked cc rule: enforce_min_safe.induct)
  case (1 msl obs blocked cc)
  show ?case
  proof (cases "LANE_COUNT - int (card blocked) < msl \<and> obs \<noteq> []")
    case True
    then have step: "enforce_min_safe msl (butlast obs) (blocked - {lane (last obs)}) (cc + 1)
        = (obs', blocked', cc')"
      using "1.prems"(1) by (simp add: enforce_min_safe_step)
    from True "1.prems"(2,3) distinct_lanes_butlast[of obs]
    have "distinct (map lane (butlast obs))"
      "blocked - {lane (last obs)} = set (map lane (butlast obs))"
      by simp_all
    from "1.IH"[OF True step this] show ?thesis .
  next
    case False
    then have "obs' = obs" "blocked' = blocked"
      using "1.prems"(1) by (simp_all add: enforce_min_safe_stop)
    with False "1.prems"(2,3) show ?thesis by auto
  qed
qed

lemma restore_reachability_exact:
  assumes "restore_reachability prev_safe mlc obs blocked cc r = (obs', cc')"
    and "distinct (map lane obs)" and "blocked = set (map lane obs)"
    and "r = reachable_between prev_safe (all_lanes - blocked) mlc"
  shows "obs' = [] \<or> reachable_between prev_safe (all_lanes - set (map lane obs')) mlc"
  using assms
proof (induction prev_safe mlc obs blocked cc r rule: restore_reachability.induct)
  case (1 prev_safe mlc obs blocked cc r)
  show ?case
  proof (cases "\<not> r \<and> obs \<noteq> []")
    case True
    then have step: "restore_reachability prev_safe mlc (butlast obs) (blocked - {lane (last obs)})
        (cc + 1) (reachable_between prev_safe (all_lanes - (blocked - {lane (last obs)})) mlc)
        = (obs', cc')"
      using "1.prems"(1) by (simp add: restore_reachability_step)
    from True "1.prems"(2,3) distinct_lanes_butlast[of obs]
    have "distinct (map lane (butlast obs))"
      "blocked - {lane (last obs)} = set (map lane (butlast obs))"
      by simp_all
    from "1.IH"[OF True refl refl step this refl] show ?thesis .
  next
    case False
    then have "obs' = obs"
      using "1.prems"(1) by (simp add: restore_reachability_stop)
    with False "1.prems"(3,4) show ?thesis by auto
  qed
qed

lemma obstacles_of_append: "obstacles_of (xs @ ys) = obstacles_of xs @ obstacles_of ys"
  by (simp add: obstacles_of_def)

lemma obstacles_of_pickups: "obstacles_of (filter is_pickup xs) = []"
  by (simp add: obstacles_of_def)

lemma obstacles_of_idem: "obstacles_of (obstacles_of xs) = obstacles_of xs"
  by (simp add: obstacles_of_def)

lemma obstacles_of_prefix:
  assumes "obstacles_of xs = ys @ zs"
  shows "obstacles_of ys = ys"
proof -
  have "obstacles_of (ys @ zs) = ys @ zs"
    using assms obstacles_of_idem[of xs] by simp
  then have "obstacles_of ys @ obstacles_of zs = ys @ zs"
    by (simp add: obstacles_of_append)
  moreover have "length (obstacles_of ys) \<le> length ys" "length (obstacles_of zs) \<le> length zs"
    by (simp_all add: obstacles_of_def)
  ultimately show ?thesis
    by (metis append_eq_append_conv length_append add_le_cancel_left le_antisym
        add_mono_thms_linordered_semiring(1))
qed

lemma validate_group_kept:
  assumes vg: "validate_group msl prev g cc = (kept, cc')"
    and d: "distinct (map lane (obstacles_of (snd g)))"
  shows "blocked_lanes_of kept \<subseteq> blocked_lanes_of (snd g)"
    and "set kept \<subseteq> set (snd g)"
    and "msl \<le> safe_lane_count kept \<or> blocked_lanes_of kept = {}"
    and "\<And>p. prev = Some p \<Longrightarrow>
           blocked_lanes_of kept = {} \<or>
           reachable_between (all_lanes - blocked_lanes_of (snd p)) (safe_lanes_of kept)
             (py_int ((fst g - fst p) / LANE_CROSS_TIME_S))"
proof -
  let ?O = "obstacles_of (snd g)"
  obtain obs1 blocked1 cc1
    where e: "enforce_min_safe msl ?O (set (map lane ?O)) cc = (obs1, blocked1, cc1)"
    by (metis prod_cases3)
  from enforce_min_safe_exact[OF e d refl]
  have b1: "blocked1 = set (map lane obs1)" and d1: "distinct (map lane obs1)"
    and s1: "msl \<le> LANE_COUNT - int (card blocked1) \<or> obs1 = []"
    by blast+
  from enforce_min_safe_culls[OF e] obtain zs1 where z1: "?O = obs1 @ zs1" by blast
  from validate_group_culls[OF vg] obtain ys zs
    where k: "?O = ys @ zs" "kept = ys @ filter is_pickup (snd g)" by blast
  from obstacles_of_prefix[OF k(1)] have oy: "obstacles_of ys = ys" .
  have ok: "obstacles_of kept = ys"
    by (simp add: k(2) obstacles_of_append obstacles_of_pickups oy)
  then have bk: "blocked_lanes_of kept = set (map lane ys)"
    by (simp add: blocked_lanes_of_def)
  have "set ys \<subseteq> set ?O" using k(1) by simp
  then show sub: "blocked_lanes_of kept \<subseteq> blocked_lanes_of (snd g)"
    unfolding blocked_lanes_of_def ok by auto
  have "set ?O \<subseteq> set (snd g)" by (simp add: obstacles_of_def)
  with \<open>set ys \<subseteq> set ?O\<close> show "set kept \<subseteq> set (snd g)"
    by (auto simp: k(2))
  have ys_cases: "(prev = None \<and> ys = obs1) \<or>
     (\<exists>p obs2 cc2. prev = Some p \<and> ys = obs2 \<and>
        restore_reachability (all_lanes - set (map lane (obstacles_of (snd p))))
          (py_int ((fst g - fst p) / LANE_CROSS_TIME_S)) obs1 blocked1 cc1
          (reachable_between (all_lanes - set (map lane (obstacles_of (snd p))))
             (all_lanes - blocked1) (py_int ((fst g - fst p) / LANE_CROSS_TIME_S)))
        = (obs2, cc2))"
  proof (cases prev)
    case None
    with vg e have "kept = obs1 @ filter is_pickup (snd g)"
      by (auto simp: validate_group_def Let_def)
    with k(2) None show ?thesis by simp
  next
    case (Some p)
    obtain obs2 cc2
      where r: "restore_reachability (all_lanes - set (map lane (obstacles_of (snd p))))
          (py_int ((fst g - fst p) / LANE_CROSS_TIME_S)) obs1 blocked1 cc1
          (reachable_between (all_lanes - set (map lane (obstacles_of (snd p))))
             (all_lanes - blocked1) (py_int ((fst g - fst p) / LANE_CROSS_TIME_S)))
        = (obs2, cc2)"
      by (metis surj_pair)
    with vg e Some have "kept = obs2 @ filter is_pickup (snd g)"
      by (auto simp: validate_group_def Let_def)
    with k(2) Some r show ?thesis by simp
  qed
  have pre: "\<exists>zs'. obs1 = ys @ zs'"
    using ys_cases restore_reachability_culls by fastforce
  then have "set (map lane ys) \<subseteq> set (map lane obs1)" by auto
  then have "card (set (map lane ys)) \<le> card (set (map lane obs1))"
    by (intro card_mono) simp_all
  moreover from pre have "obs1 = [] \<Longrightarrow> ys = []" by auto
  ultimately show "msl \<le> safe_lane_count kept \<or> blocked_lanes_of kept = {}"
    using s1 b1 unfolding safe_lane_count_def blocked_lanes_of_def ok by auto
  show "blocked_lanes_of kept = {} \<or>
           reachable_between (all_lanes - blocked_lanes_of (snd p)) (safe_lanes_of kept)
             (py_int ((fst g - fst p) / LANE_CROSS_TIME_S))" if "prev = Some p" for p
  proof -
    from ys_cases that obtain cc2
      where r: "restore_reachability (all_lanes - set (map lane (obstacles_of (snd p))))
          (py_int ((fst g - fst p) / LANE_CROSS_TIME_S)) obs1 blocked1 cc1
          (reachable_between (all_lanes - set (map lane (obstacles_of (snd p))))
             (all_lanes - blocked1) (py_int ((fst g - fst p) / LANE_CROSS_TIME_S)))
        = (ys, cc2)"
      by auto
    from restore_reachability_exact[OF r d1 b1 refl]
    show ?thesis
      unfolding safe_lanes_of_def blocked_lanes_of_def ok by auto
  qed
qed

lemma validate_groups_kept:
  "fst (validate_groups msl prev gs validated cc)
     = validated @ concat (map snd (kept_groups msl prev gs cc))"
proof (induction gs arbitrary: prev validated cc)
  case Nil
  show ?case by simp
next
  case (Cons g gs)
  obtain kept cc1 where vg: "validate_group msl prev g cc = (kept, cc1)"
    by (metis surj_pair)
  with Cons.IH[of "Some g" "validated @ kept" cc1] show ?case by simp
qed

lemma kept_groups_rel:
  assumes "\<forall>g \<in> set gs. distinct (map lane (obstacles_of (snd g)))"
  shows "list_all2 (kept_of msl) (kept_groups msl prev gs cc) gs"
  using assms
proof (induction gs arbitrary: prev cc)
  case Nil
  show ?case by simp
next
  case (Cons g gs)
  obtain kept cc1 where vg: "validate_group msl prev g cc = (kept, cc1)"
    by (metis surj_pair)
  from Cons.prems have d: "distinct (map lane (obstacles_of (snd g)))"
    and ds: "\<forall>h \<in> set gs. distinct (map lane (obstacles_of (snd h)))"
    by simp_all
  from validate_group_kept(2,3)[OF vg d] have "kept_of msl (fst g, kept) g"
    by (simp add: kept_of_def)
  with Cons.IH[OF ds, of "Some g" cc1] vg show ?case by simp
qed

lemma list_all2_memD:
  "list_all2 P xs ys \<Longrightarrow> x \<in> set xs \<Longrightarrow> \<exists>y \<in> set ys. P x y"
  by (induction rule: list_all2_induct) auto

lemma wall_groups_iff:
  "wall_groups B \<longleftrightarrow>
     (\<forall>g \<in> set B. snd g \<noteq> [] \<and> (\<forall>e \<in> set (snd g). t e = fst g)) \<and>
     sorted_wrt (\<lambda>x y. x + 0.05 \<le> y) (map fst B)"
  by (simp add: wall_groups_def sorted_wrt_map)

lemma kept_groups_walls:
  assumes rel: "list_all2 (kept_of msl) K gs" and w: "wall_groups gs"
  shows "wall_groups (filter (\<lambda>k. snd k \<noteq> []) K)"
proof -
  from rel have fsts: "map fst K = map fst gs"
    by (induction rule: list_all2_induct) (simp_all add: kept_of_def)
  have mem: "\<forall>k \<in> set K. \<forall>e \<in> set (snd k). t e = fst k"
  proof
    fix k assume "k \<in> set K"
    with list_all2_memD[OF rel] obtain g where g: "g \<in> set gs" "kept_of msl k g"
      by blast
    with w show "\<forall>e \<in> set (snd k). t e = fst k"
      by (auto simp: kept_of_def wall_groups_def)
  qed
  from w have "sorted_wrt (\<lambda>x y. x + 0.05 \<le> y) (map fst gs)"
    by (simp only: wall_groups_iff)
  then have "sorted_wrt (\<lambda>x y. x + 0.05 \<le> y) (map fst K)"
    by (simp only: fsts)
  then have "sorted_wrt (\<lambda>a b. fst a + 0.05 \<le> fst b) K"
    by (simp only: sorted_wrt_map)
  then have "sorted_wrt (\<lambda>a b. fst a + 0.05 \<le> fst b) (filter (\<lambda>k. snd k \<noteq> []) K)"
    by (rule sorted_wrt_filter)
  with mem show ?thesis by (simp add: wall_groups_def)
qed

lemma wall_groups_sorted: "wall_groups B \<Longrightarrow> sorted (map t (concat (map snd B)))"
proof (induction B)
  case Nil
  show ?case by simp
next
  case (Cons g B)
  from Cons.prems have bt: "\<forall>x \<in> set (snd g). t x = fst g"
    and later: "\<forall>h \<in> set B. fst g + 0.05 \<le> fst h" and wB: "wall_groups B"
    by (simp_all add: wall_groups_Cons)
  from wB have inner: "\<forall>h \<in> set B. \<forall>y \<in> set (snd h). t y = fst h"
    by (simp add: wall_groups_def)
  have s1: "sorted (map t (snd g))"
    using bt by (simp add: sorted_wrt_iff_nth_less sorted_map)
  have "t x \<le> t y" if "x \<in> set (snd g)" "y \<in> set (concat (map snd B))" for x y
  proof -
    from that(2) obtain h where h: "h \<in> set B" "y \<in> set (snd h)" by auto
    with inner later bt that(1) have "t x = fst g" "t y = fst h" "fst g + 0.05 \<le> fst h"
      by simp_all
    then show ?thesis by simp
  qed
  with s1 Cons.IH[OF wB] show ?case
    by (auto simp: sorted_append)
qed

lemma concat_nonempty: "concat (map snd (filter (\<lambda>k. snd k \<noteq> []) K)) = concat (map snd K)"
  by (induction K) auto

lemma wall_groups_clear:
  assumes "wall_groups B" "clear_of_sentinel es" "set (concat (map snd B)) \<subseteq> set es"
  shows "\<forall>g \<in> set B. 0.05 \<le> \<bar>fst g - (- 999)\<bar>"
proof
  fix g assume g: "g \<in> set B"
  with assms(1) have "snd g \<noteq> []" and gt: "\<forall>e \<in> set (snd g). t e = fst g"
    by (simp_all add: wall_groups_def)
  then obtain e where e: "e \<in> set (snd g)" by (cases "snd g") auto
  with g have "e \<in> set (concat (map snd B))" by auto
  with assms(3) have "e \<in> set es" by auto
  with assms(2) have "0.05 \<le> \<bar>t e - (- 999)\<bar>"
    by (simp add: clear_of_sentinel_def)
  with gt e show "0.05 \<le> \<bar>fst g - (- 999)\<bar>" by simp
qed

lemma group_lanes_distinct:
  assumes ns: "no_stacked_obstacles events" and w: "wall_groups (time_groups events)"
  shows "\<forall>g \<in> set (time_groups events). distinct (map lane (obstacles_of (snd g)))"
proof
  fix g assume g: "g \<in> set (time_groups events)"
  let ?key = "\<lambda>e :: CourseEvent. (t e, lane e)"
  have "mset (map ?key (obstacles_of (sort_key t events))) = mset (map ?key (obstacles_of events))"
    by (simp add: obstacles_of_def)
  with ns have ds: "distinct (map ?key (obstacles_of (sort_key t events)))"
    unfolding no_stacked_obstacles_def by (metis mset_eq_imp_distinct_iff)
  from g obtain G1 G2 where G: "time_groups events = G1 @ g # G2"
    by (meson split_list)
  have "sort_key t events = concat (map snd G1) @ snd g @ concat (map snd G2)"
    using concat_time_groups[of events] by (simp add: G)
  with ds have "distinct (map ?key (obstacles_of (snd g)))"
    by (simp add: obstacles_of_append)
  then have dk: "distinct (obstacles_of (snd g))" "inj_on ?key (set (obstacles_of (snd g)))"
    by (simp_all add: distinct_map)
  from w g have gt: "\<forall>e \<in> set (snd g). t e = fst g"
    by (simp add: wall_groups_def)
  have "inj_on lane (set (obstacles_of (snd g)))"
  proof (rule inj_onI)
    fix a b assume a: "a \<in> set (obstacles_of (snd g))" and b: "b \<in> set (obstacles_of (snd g))"
      and l: "lane a = lane b"
    from a b gt have "t a = t b" by (simp add: obstacles_of_def)
    with l have "?key a = ?key b" by simp
    with dk(2) a b show "a = b" by (meson inj_onD)
  qed
  with dk(1) show "distinct (map lane (obstacles_of (snd g)))"
    by (simp add: distinct_map)
qed

lemma output_groups:
  assumes wl: "walls events" and cl: "clear_of_sentinel events"
    and ns: "no_stacked_obstacles events" and ne: "events \<noteq> []"
  shows "time_groups (fst (validate_paths events params))
     = filter (\<lambda>k. snd k \<noteq> [])
         (kept_groups (min_safe_lanes params) None (time_groups events) 0)"
proof -
  let ?G = "time_groups events"
  let ?K = "kept_groups (min_safe_lanes params) None ?G 0"
  let ?B = "filter (\<lambda>k. snd k \<noteq> []) ?K"
  have wG: "wall_groups ?G" by (rule time_groups_walls[OF wl cl])
  have rel: "list_all2 (kept_of (min_safe_lanes params)) ?K ?G"
    by (rule kept_groups_rel[OF group_lanes_distinct[OF ns wG]])
  have wB: "wall_groups ?B" by (rule kept_groups_walls[OF rel wG])
  obtain v c where vc: "validate_groups (min_safe_lanes params) None ?G [] 0 = (v, c)"
    by (metis surj_pair)
  with validate_groups_kept[of "min_safe_lanes params" None ?G "[]" 0]
  have "v = concat (map snd ?K)" by simp
  with vc ne have out: "fst (validate_paths events params) = sort_key t (concat (map snd ?K))"
    by (simp add: validate_paths_def)
  have cB: "concat (map snd ?B) = concat (map snd ?K)" by (rule concat_nonempty)
  from wall_groups_sorted[OF wB] have srt: "sorted (map t (concat (map snd ?K)))"
    by (simp only: cB)
  then have id1: "sort_key t (concat (map snd ?K)) = concat (map snd ?K)"
    by (rule sort_key_id_if_sorted)
  have "set (concat (map snd ?K)) \<subseteq> set (concat (map snd ?G))"
  proof
    fix e assume "e \<in> set (concat (map snd ?K))"
    then obtain k where k: "k \<in> set ?K" "e \<in> set (snd k)" by auto
    with list_all2_memD[OF rel] obtain g
      where "g \<in> set ?G" "kept_of (min_safe_lanes params) k g"
      by blast
    with k(2) show "e \<in> set (concat (map snd ?G))"
      by (auto simp: kept_of_def)
  qed
  then have sub: "set (concat (map snd ?B)) \<subseteq> set events"
    by (simp add: cB concat_time_groups)
  from time_groups_blocks[OF wB wall_groups_clear[OF wB cl sub]]
  have grp: "group_by_time (concat (map snd ?K)) [] (- 999) [] = ?B"
    by (simp only: cB)
  have "time_groups (fst (validate_paths events params))
      = group_by_time (sort_key t (fst (validate_paths events params))) [] (- 999) []"
    by (fact time_groups_def)
  also have "\<dots> = group_by_time (concat (map snd ?K)) [] (- 999) []"
    by (simp only: out id1)
  also have "\<dots> = ?B" by (fact grp)
  finally show ?thesis .
qed

lemma time_groups_Nil: "time_groups [] = []"
  by (simp add: time_groups_def)

text \<open>For every input the times of consecutive groups are at least 50 ms apart.\<close>

lemma group_by_time_gaps:
  assumes "sorted (map t es)"
    and "sorted_wrt (\<lambda>a b. fst a + 0.05 \<le> fst b) tgs"
    and "\<forall>g \<in> set tgs. fst g + 0.05 \<le> cgt"
    and "cg \<noteq> [] \<longrightarrow> (\<forall>e \<in> set es. cgt - 0.05 < t e)"
    and "cg = [] \<longrightarrow> tgs = []"
  shows "sorted_wrt (\<lambda>a b. fst a + 0.05 \<le> fst b) (group_by_time es tgs cgt cg)"
  using assms
proof (induction es arbitrary: tgs cgt cg)
  case Nil
  then show ?case by (auto simp: sorted_wrt_append)
next
  case (Cons e es)
  from Cons.prems(1) have srt: "sorted (map t es)" and le: "\<forall>x \<in> set es. t e \<le> t x"
    by simp_all
  show ?case
  proof (cases "\<bar>t e - cgt\<bar> < 0.05")
    case True
    have inv: "cg @ [e] \<noteq> [] \<longrightarrow> (\<forall>x \<in> set es. cgt - 0.05 < t x)"
    proof (intro impI ballI)
      fix x assume "x \<in> set es"
      with le have "t e \<le> t x" by simp
      with True show "cgt - 0.05 < t x" by (simp add: abs_if split: if_splits)
    qed
    have "sorted_wrt (\<lambda>a b. fst a + 0.05 \<le> fst b) (group_by_time es tgs cgt (cg @ [e]))"
      by (rule Cons.IH[OF srt Cons.prems(2,3) inv]) simp
    with True show ?thesis by simp
  next
    case False
    let ?tgs = "if cg \<noteq> [] then tgs @ [(cgt, cg)] else tgs"
    have far: "cg \<noteq> [] \<longrightarrow> cgt + 0.05 \<le> t e"
    proof
      assume "cg \<noteq> []"
      with Cons.prems(4) have "cgt - 0.05 < t e" by simp
      with False show "cgt + 0.05 \<le> t e" by (simp add: abs_if split: if_splits)
    qed
    have a: "sorted_wrt (\<lambda>a b. fst a + 0.05 \<le> fst b) ?tgs"
      using Cons.prems(2,3) by (auto simp: sorted_wrt_append)
    have b: "\<forall>g \<in> set ?tgs. fst g + 0.05 \<le> t e"
    proof (cases "cg = []")
      case True
      with Cons.prems(5) show ?thesis by simp
    next
      case ne: False
      with far have f: "cgt + 0.05 \<le> t e" by simp
      have "fst g + 0.05 \<le> t e" if "g \<in> set tgs" for g
      proof -
        from that Cons.prems(3) have "fst g + 0.05 \<le> cgt" by simp
        with f show ?thesis by simp
      qed
      with f ne show ?thesis by auto
    qed
    have c: "[e] \<noteq> [] \<longrightarrow> (\<forall>x \<in> set es. t e - 0.05 < t x)"
    proof (intro impI ballI)
      fix x assume "x \<in> set es"
      with le have "t e \<le> t x" by simp
      then show "t e - 0.05 < t x" by simp
    qed
    have "sorted_wrt (\<lambda>a b. fst a + 0.05 \<le> fst b) (group_by_time es ?tgs (t e) [e])"
      by (rule Cons.IH[OF srt a b c]) simp
    with False show ?thesis by simp
  qed
qed

lemma time_groups_gaps:
  "sorted_wrt (\<lambda>a b. fst a + 0.05 \<le> fst b) (time_groups events)"
  unfolding time_groups_def
  by (rule group_by_time_gaps) simp_all

section \<open>Path validation: the safety invariant\<close>

text \<open>
  C1. Every time group of the list \<^verbatim>\<open>validate_paths\<close> returns is claimed to leave at
  least \<open>min_safe_lanes\<close> safe lanes, for every input and all parameters. No list can
  leave five of four lanes safe: with \<open>min_safe_lanes = 5\<close> the loop stops when the
  obstacles run out, and a lone pickup comes back as a group with four safe lanes.
\<close>

theorem min_safe_lanes_above_lane_count:
  "walls lone_pickup \<and> clear_of_sentinel lone_pickup \<and> no_stacked_obstacles lone_pickup \<and>
   validate_paths lone_pickup overfull_params = (lone_pickup, 0) \<and>
   \<not> groups_safe (min_safe_lanes overfull_params)
        (time_groups (fst (validate_paths lone_pickup overfull_params)))"
  by code_simp

text \<open>
  C1, as the code has it: when \<open>min_safe_lanes\<close> is at most the lane count, the events of
  the input are simultaneous or at least 50 ms apart and clear of the initial group time,
  and no two obstacles share time and lane, every time group of the returned list leaves
  at least \<open>min_safe_lanes\<close> safe lanes.
\<close>

theorem validated_groups_safe:
  assumes wl: "walls events" and cl: "clear_of_sentinel events"
    and ns: "no_stacked_obstacles events"
    and msl: "min_safe_lanes params \<le> LANE_COUNT"
  shows "groups_safe (min_safe_lanes params)
           (time_groups (fst (validate_paths events params)))"
proof (cases "events = []")
  case True
  then show ?thesis
    by (simp add: validate_paths_def time_groups_Nil groups_safe_def)
next
  case False
  let ?G = "time_groups events"
  let ?K = "kept_groups (min_safe_lanes params) None ?G 0"
  have wG: "wall_groups ?G" by (rule time_groups_walls[OF wl cl])
  have rel: "list_all2 (kept_of (min_safe_lanes params)) ?K ?G"
    by (rule kept_groups_rel[OF group_lanes_distinct[OF ns wG]])
  have "min_safe_lanes params \<le> safe_lane_count (snd k)" if "k \<in> set ?K" for k
  proof -
    from list_all2_memD[OF rel that] obtain g where "kept_of (min_safe_lanes params) k g"
      by blast
    then have "min_safe_lanes params \<le> safe_lane_count (snd k) \<or> blocked_lanes_of (snd k) = {}"
      by (simp add: kept_of_def)
    with msl show ?thesis
      by (auto simp: safe_lane_count_def)
  qed
  then have "groups_safe (min_safe_lanes params) (filter (\<lambda>k. snd k \<noteq> []) ?K)"
    by (simp add: groups_safe_def list_all_iff)
  with output_groups[OF wl cl ns False] show ?thesis by simp
qed

theorem validated_groups_safe_witness:
  "walls two_walls \<and> clear_of_sentinel two_walls \<and> no_stacked_obstacles two_walls \<and>
   min_safe_lanes normal_params \<le> LANE_COUNT \<and>
   validate_paths two_walls normal_params
     = ([mk_event 5 0 ''crash'', mk_event 5 1 ''car'', mk_event 5 3 ''pickup_ammo'',
         mk_event 5.5 2 ''crash''], 2) \<and>
   groups_safe (min_safe_lanes normal_params)
     (time_groups (fst (validate_paths two_walls normal_params)))"
proof -
  have a: "walls two_walls" by code_simp
  have b: "clear_of_sentinel two_walls" by code_simp
  have c: "no_stacked_obstacles two_walls" by code_simp
  have d: "min_safe_lanes normal_params \<le> LANE_COUNT" by code_simp
  have v: "validate_paths two_walls normal_params
     = ([mk_event 5 0 ''crash'', mk_event 5 1 ''car'', mk_event 5 3 ''pickup_ammo'',
         mk_event 5.5 2 ''crash''], 2)"
    by code_simp
  from a b c d v validated_groups_safe[OF a b c d] show ?thesis by blast
qed

text \<open>
  For every input in which no time group has two obstacles in one lane, the groups as the
  loop leaves them (the time groups of the input, each with its surviving events) are
  safe.
\<close>

lemma kept_groups_safe:
  assumes "groups_unstacked (time_groups events)" and "min_safe_lanes params \<le> LANE_COUNT"
  shows "groups_safe (min_safe_lanes params)
           (kept_groups (min_safe_lanes params) None (time_groups events) 0)"
proof -
  let ?K = "kept_groups (min_safe_lanes params) None (time_groups events) 0"
  from assms(1) have d: "\<forall>g \<in> set (time_groups events). distinct (map lane (obstacles_of (snd g)))"
    by (simp add: groups_unstacked_def list_all_iff)
  have "min_safe_lanes params \<le> safe_lane_count (snd k)" if "k \<in> set ?K" for k
  proof -
    from list_all2_memD[OF kept_groups_rel[OF d] that]
    obtain g where "kept_of (min_safe_lanes params) k g" by blast
    then have "min_safe_lanes params \<le> safe_lane_count (snd k) \<or> blocked_lanes_of (snd k) = {}"
      by (simp add: kept_of_def)
    with assms(2) show ?thesis
      by (auto simp: safe_lane_count_def)
  qed
  then show ?thesis by (simp add: groups_safe_def list_all_iff)
qed

text \<open>
  Each condition on the input is needed. Two obstacles in one lane: the loop discards
  the lane from \<^verbatim>\<open>blocked_lanes\<close> with the first of them it pops, and stops with three
  lanes still blocked.
\<close>

lemma stacked_wall_breaks_safety:
  "validate_paths stacked_wall normal_params
     = ([mk_event 5 0 ''crash'', mk_event 5 1 ''car'', mk_event 5 2 ''slow''], 1) \<and>
   walls stacked_wall \<and> clear_of_sentinel stacked_wall \<and>
   min_safe_lanes normal_params \<le> LANE_COUNT \<and>
   \<not> groups_safe (min_safe_lanes normal_params)
        (time_groups (fst (validate_paths stacked_wall normal_params)))"
  by code_simp

text \<open>
  Events closer than 50 ms that are not simultaneous: culling the obstacle at \<open>0.06\<close>
  moves the start of its group to the pickup at \<open>0.10\<close>, and the returned list groups as
  \<open>{0}\<close>, \<open>{0.10, 0.12}\<close>, \<open>{0.16, 0.18}\<close>, the last with lanes 1, 0 and 2 blocked.
\<close>

lemma drifting_groups_break_safety:
  "clear_of_sentinel drifting_groups \<and> no_stacked_obstacles drifting_groups \<and>
   min_safe_lanes normal_params \<le> LANE_COUNT \<and>
   fst (validate_paths drifting_groups normal_params)
     = [mk_event 0 1 ''crash'', mk_event 0 2 ''crash'', mk_event 0.10 3 ''pickup_ammo'',
        mk_event 0.12 0 ''crash'', mk_event 0.16 1 ''crash'',
        mk_event 0.18 0 ''crash'', mk_event 0.18 2 ''crash''] \<and>
   \<not> groups_safe (min_safe_lanes normal_params)
        (time_groups (fst (validate_paths drifting_groups normal_params)))"
  by code_simp

text \<open>
  Events within 50 ms of the initial group time \<open>-999.0\<close> join one group whatever their
  own distance, so two walls share a group and a lane.
\<close>

lemma sentinel_groups_break_safety:
  "walls sentinel_groups \<and> no_stacked_obstacles sentinel_groups \<and>
   min_safe_lanes normal_params \<le> LANE_COUNT \<and>
   \<not> groups_safe (min_safe_lanes normal_params)
        (time_groups (fst (validate_paths sentinel_groups normal_params)))"
  by code_simp

section \<open>Path validation: the reachability invariant\<close>

lemma safe_lanes_nonempty:
  assumes "1 \<le> msl" "msl \<le> safe_lane_count es \<or> blocked_lanes_of es = {}"
  shows "safe_lanes_of es \<noteq> {}"
proof (cases "blocked_lanes_of es = {}")
  case True
  then show ?thesis by (simp add: safe_lanes_of_def all_lanes_def LANE_COUNT_def)
next
  case False
  with assms have c: "card (blocked_lanes_of es) \<le> 3"
    by (simp add: safe_lane_count_def LANE_COUNT_def)
  show ?thesis
  proof
    assume "safe_lanes_of es = {}"
    then have "all_lanes \<subseteq> blocked_lanes_of es" by (simp add: safe_lanes_of_def)
    then have "card all_lanes \<le> card (blocked_lanes_of es)"
      by (intro card_mono) (simp_all add: blocked_lanes_of_def)
    with c show False by (simp add: all_lanes_def LANE_COUNT_def)
  qed
qed

lemma py_int_nonneg: "0 \<le> x \<Longrightarrow> py_int x = \<lfloor>x\<rfloor>"
  by (simp add: py_int_def)

lemma validate_group_reachable:
  assumes vg: "validate_group msl (Some p) g cc = (kept, cc')"
    and d: "distinct (map lane (obstacles_of (snd g)))"
    and gap: "fst p \<le> fst g"
    and sub: "blocked_lanes_of kp \<subseteq> blocked_lanes_of (snd p)"
    and ne: "safe_lanes_of kp \<noteq> {}"
  shows "pair_reachable (fst p, kp) (fst g, kept)"
proof -
  from gap have "0 \<le> (fst g - fst p) / 0.3" by simp
  then have m: "py_int ((fst g - fst p) / LANE_CROSS_TIME_S) = \<lfloor>(fst g - fst p) / 0.3\<rfloor>"
    by (simp add: py_int_def LANE_CROSS_TIME_S_def)
  from \<open>0 \<le> (fst g - fst p) / 0.3\<close> have m0: "0 \<le> \<lfloor>(fst g - fst p) / 0.3\<rfloor>" by simp
  from validate_group_kept(4)[OF vg d refl]
  consider "blocked_lanes_of kept = {}"
    | "reachable_between (all_lanes - blocked_lanes_of (snd p)) (safe_lanes_of kept)
         \<lfloor>(fst g - fst p) / 0.3\<rfloor>"
    unfolding m by blast
  then show ?thesis
  proof cases
    case 1
    from ne obtain l where l: "l \<in> safe_lanes_of kp" by blast
    then have "l \<in> safe_lanes_of kept" using 1 by (simp add: safe_lanes_of_def)
    with l m0 show ?thesis
      unfolding pair_reachable_def by (intro bexI[of _ l]) simp_all
  next
    case 2
    then obtain a c where ac: "a \<in> all_lanes - blocked_lanes_of (snd p)"
      "c \<in> safe_lanes_of kept" "\<bar>c - a\<bar> \<le> \<lfloor>(fst g - fst p) / 0.3\<rfloor>"
      unfolding reachable_between_def by blast
    from ac(1) sub have "a \<in> safe_lanes_of kp" by (auto simp: safe_lanes_of_def)
    with ac(2,3) show ?thesis
      unfolding pair_reachable_def by (intro bexI[of _ a] bexI[of _ c]) simp_all
  qed
qed

lemma consecutive_reachable_Cons:
  "consecutive_reachable (k # K) \<longleftrightarrow>
     (K = [] \<or> (pair_reachable k (hd K) \<and> consecutive_reachable K))"
  by (cases K) simp_all

lemma kept_groups_reachable:
  assumes "1 \<le> msl"
    and "\<forall>g \<in> set gs. distinct (map lane (obstacles_of (snd g)))"
    and "sorted_wrt (\<lambda>a b. fst a + 0.05 \<le> fst b) gs"
  shows "consecutive_reachable (kept_groups msl prev gs cc) \<and>
         (\<forall>p kp. prev = Some p \<and> gs \<noteq> [] \<and> fst p \<le> fst (hd gs) \<and>
            blocked_lanes_of kp \<subseteq> blocked_lanes_of (snd p) \<and> safe_lanes_of kp \<noteq> {}
            \<longrightarrow> pair_reachable (fst p, kp) (hd (kept_groups msl prev gs cc)))"
  using assms(2,3)
proof (induction gs arbitrary: prev cc)
  case Nil
  show ?case by simp
next
  case (Cons g gs)
  obtain kept cc1 where vg: "validate_group msl prev g cc = (kept, cc1)"
    by (metis surj_pair)
  from Cons.prems have d: "distinct (map lane (obstacles_of (snd g)))"
    and ds: "\<forall>h \<in> set gs. distinct (map lane (obstacles_of (snd h)))"
    and later: "\<forall>h \<in> set gs. fst g + 0.05 \<le> fst h"
    and srt: "sorted_wrt (\<lambda>a b. fst a + 0.05 \<le> fst b) gs"
    by simp_all
  let ?rest = "kept_groups msl (Some g) gs cc1"
  have K: "kept_groups msl prev (g # gs) cc = (fst g, kept) # ?rest"
    using vg by simp
  from Cons.IH[OF ds srt, of "Some g" cc1]
  have cr: "consecutive_reachable ?rest"
    and link: "\<And>kp. gs \<noteq> [] \<Longrightarrow> fst g \<le> fst (hd gs) \<Longrightarrow>
        blocked_lanes_of kp \<subseteq> blocked_lanes_of (snd g) \<Longrightarrow> safe_lanes_of kp \<noteq> {} \<Longrightarrow>
        pair_reachable (fst g, kp) (hd ?rest)"
    by blast+
  have kept_ok: "blocked_lanes_of kept \<subseteq> blocked_lanes_of (snd g)" "safe_lanes_of kept \<noteq> {}"
    using validate_group_kept(1,3)[OF vg d] safe_lanes_nonempty[OF assms(1)] by blast+
  have first: "consecutive_reachable ((fst g, kept) # ?rest)"
  proof (cases gs)
    case Nil
    then show ?thesis by simp
  next
    case (Cons h hs)
    with later have "fst g \<le> fst (hd gs)" by simp
    from link[OF _ this kept_ok] Cons have "pair_reachable (fst g, kept) (hd ?rest)"
      by simp
    with cr show ?thesis by (simp add: consecutive_reachable_Cons)
  qed
  have "pair_reachable (fst p, kp) (fst g, kept)"
    if "prev = Some p" "fst p \<le> fst g" "blocked_lanes_of kp \<subseteq> blocked_lanes_of (snd p)"
      "safe_lanes_of kp \<noteq> {}" for p kp
    using validate_group_reachable[OF _ d that(2,3,4)] vg that(1) by simp
  with first show ?case
    unfolding K by simp
qed

lemma filter_length_id: "length (filter P xs) = length xs \<Longrightarrow> filter P xs = xs"
  by (metis filter_True length_filter_less less_irrefl)

lemma kept_groups_length: "length (kept_groups msl prev gs cc) = length gs"
  by (induction gs arbitrary: prev cc) (auto split: prod.splits)

text \<open>
  The input below is well formed: its events are simultaneous or at least 50 ms apart,
  clear of the initial group time, no two obstacles share time and lane, and the hard
  preset asks for one safe lane.
\<close>

lemma vanishing_group_well_formed:
  "walls vanishing_group \<and> clear_of_sentinel vanishing_group \<and>
   no_stacked_obstacles vanishing_group \<and> min_safe_lanes hard_params = 1"
  by code_simp

text \<open>
  C2. Every consecutive pair of time groups of the returned list is claimed to have a
  safe lane of the later group within \<open>floor(dt / 0.3)\<close> lanes of a safe lane of the
  earlier one, and the docstring of \<^verbatim>\<open>validate_paths\<close> promises that it culls the
  events that create impossible states. The code does not deliver this. Each group is
  compared with \<^verbatim>\<open>time_groups[gi - 1]\<close>, the group before it as formed before any
  culling; when all events of that group are culled the returned list joins two groups
  that were never compared. On the hard preset, with walls at \<open>4.0\<close> (lanes 1, 2, 3),
  \<open>4.25\<close> (lane 0) and \<open>4.5\<close> (lanes 0, 1, 2): the wall at \<open>4.25\<close> is not reachable
  from lane 0 in \<open>floor(0.25 / 0.3) = 0\<close> lane changes and is culled; the wall at \<open>4.5\<close>
  is compared with the culled wall, whose lane 3 was safe, and kept. The returned list
  has the groups \<open>4.0\<close> with safe lane 0 and \<open>4.5\<close> with safe lane 3, half a second
  apart, where \<open>floor(0.5 / 0.3) = 1\<close> lane change is possible and 3 are needed.
\<close>

theorem culled_group_breaks_reachability:
  "fst (validate_paths vanishing_group hard_params)
     = [mk_event 4 1 ''crash'', mk_event 4 2 ''crash'', mk_event 4 3 ''crash'',
        mk_event 4.5 0 ''crash'', mk_event 4.5 1 ''crash'', mk_event 4.5 2 ''crash''] \<and>
   map (\<lambda>g. (fst g, safe_lanes_of (snd g)))
       (time_groups (fst (validate_paths vanishing_group hard_params)))
     = [(4, {0}), (4.5, {3})] \<and>
   py_int ((4.5 - 4) / LANE_CROSS_TIME_S) = 1 \<and>
   \<not> consecutive_reachable (time_groups (fst (validate_paths vanishing_group hard_params)))"
  by code_simp

text \<open>
  The groups as the loop leaves them on that input: the wall at \<open>4.25\<close> is emptied by
  the one cull, and each wall is reachable from the one before it in the input.
\<close>

lemma middle_wall_is_culled:
  "kept_groups (min_safe_lanes hard_params) None (time_groups vanishing_group) 0
     = [(4, [mk_event 4 1 ''crash'', mk_event 4 2 ''crash'', mk_event 4 3 ''crash'']),
        (4.25, []),
        (4.5, [mk_event 4.5 0 ''crash'', mk_event 4.5 1 ''crash'', mk_event 4.5 2 ''crash''])] \<and>
   snd (validate_paths vanishing_group hard_params) = 1"
  by code_simp

text \<open>
  The defect is confined to the runs in which a whole time group is culled away: on a
  well-formed input, when the returned list has as many time groups as the input, its
  consecutive groups are reachable.
\<close>

lemma reachable_when_no_group_vanishes:
  assumes wl: "walls events" and cl: "clear_of_sentinel events"
    and ns: "no_stacked_obstacles events"
    and msl: "1 \<le> min_safe_lanes params"
    and keep: "length (time_groups (fst (validate_paths events params)))
                 = length (time_groups events)"
  shows "consecutive_reachable (time_groups (fst (validate_paths events params)))"
proof (cases "events = []")
  case True
  then show ?thesis
    by (simp add: validate_paths_def time_groups_Nil)
next
  case False
  let ?G = "time_groups events"
  let ?K = "kept_groups (min_safe_lanes params) None ?G 0"
  have wG: "wall_groups ?G" by (rule time_groups_walls[OF wl cl])
  then have srt: "sorted_wrt (\<lambda>a b. fst a + 0.05 \<le> fst b) ?G"
    by (simp add: wall_groups_def)
  note out = output_groups[OF wl cl ns False, of params]
  from keep have "length (filter (\<lambda>k. snd k \<noteq> []) ?K) = length ?K"
    by (simp only: out kept_groups_length)
  then have "filter (\<lambda>k. snd k \<noteq> []) ?K = ?K" by (rule filter_length_id)
  with out have "time_groups (fst (validate_paths events params)) = ?K" by simp
  with kept_groups_reachable[OF msl group_lanes_distinct[OF ns wG] srt, of None 0]
  show ?thesis by simp
qed

text \<open>
  What the loop does establish: for every input in which no time group has two obstacles
  in one lane, the groups as the loop leaves them, the emptied ones included, are
  pairwise reachable in the order of the input. The emptied groups are the ones missing
  from the returned list.
\<close>

lemma kept_groups_pairwise_reachable:
  assumes "groups_unstacked (time_groups events)" and "1 \<le> min_safe_lanes params"
  shows "consecutive_reachable
           (kept_groups (min_safe_lanes params) None (time_groups events) 0)"
proof -
  from assms(1) have d: "\<forall>g \<in> set (time_groups events). distinct (map lane (obstacles_of (snd g)))"
    by (simp add: groups_unstacked_def list_all_iff)
  from kept_groups_reachable[OF assms(2) d time_groups_gaps, of None 0]
  show ?thesis by simp
qed

text \<open>
  Two obstacles in one lane: the reachability loop pops one of the two obstacles of
  lane 3, takes the lane for safe and stops; lane 3 stays blocked.
\<close>

lemma stacked_wall_breaks_reachability:
  "walls stacked_second_wall \<and> clear_of_sentinel stacked_second_wall \<and>
   1 \<le> min_safe_lanes hard_params \<and>
   length (time_groups (fst (validate_paths stacked_second_wall hard_params)))
     = length (time_groups stacked_second_wall) \<and>
   \<not> consecutive_reachable
        (time_groups (fst (validate_paths stacked_second_wall hard_params)))"
  by code_simp

text \<open>With \<open>min_safe_lanes = 0\<close> a wall may keep all four lanes blocked.\<close>

lemma no_safe_lane_breaks_reachability:
  "walls full_wall_then_pickup \<and> clear_of_sentinel full_wall_then_pickup \<and>
   no_stacked_obstacles full_wall_then_pickup \<and>
   length (time_groups (fst (validate_paths full_wall_then_pickup unguarded_params)))
     = length (time_groups full_wall_then_pickup) \<and>
   \<not> consecutive_reachable
        (time_groups (fst (validate_paths full_wall_then_pickup unguarded_params)))"
  by code_simp

section \<open>Sampling: the clamp below the first sample\<close>

text \<open>The binary search stays inside the list it indexes.\<close>

lemma nearest_beat_loop_bounds:
  "lo \<le> hi \<Longrightarrow> lo \<le> nearest_beat_loop bs x lo hi \<and> nearest_beat_loop bs x lo hi \<le> hi"
proof (induction bs x lo hi rule: nearest_beat_loop.induct)
  case (1 bs x lo hi)
  show ?case
  proof (cases "lo < hi")
    case False
    then have "nearest_beat_loop bs x lo hi = lo"
      by (rule_tac trans[OF nearest_beat_loop.simps]) simp
    with "1.prems" show ?thesis by simp
  next
    case True
    let ?mid = "(lo + hi) div 2"
    show ?thesis
    proof (cases "bs ! ?mid < x")
      case up: True
      from True up have eq: "nearest_beat_loop bs x lo hi = nearest_beat_loop bs x (?mid + 1) hi"
        by (rule_tac trans[OF nearest_beat_loop.simps]) (simp add: Let_def)
      from True have "?mid + 1 \<le> hi" "lo \<le> ?mid + 1" by simp_all
      with "1.IH"(1)[OF True refl up] show ?thesis
        unfolding eq by linarith
    next
      case down: False
      from True down have eq: "nearest_beat_loop bs x lo hi = nearest_beat_loop bs x lo ?mid"
        by (rule_tac trans[OF nearest_beat_loop.simps]) (simp add: Let_def)
      from True have "lo \<le> ?mid" "?mid \<le> hi" by simp_all
      with "1.IH"(2)[OF True refl down] show ?thesis
        unfolding eq by linarith
    qed
  qed
qed

lemma nearest_beat_index:
  "bs \<noteq> [] \<Longrightarrow> nearest_beat_loop bs x 0 (length bs - 1) < length bs"
  using nearest_beat_loop_bounds[of 0 "length bs - 1" bs x]
  by (cases bs) auto

text \<open>
  What \<^verbatim>\<open>sample_at\<close> returns, by the position \<open>idx = t * 1000 / resolution_ms\<close>: the
  first sample for \<open>idx \<le> -1\<close>, the last from \<open>len - 1\<close> on, the interpolation in between
  from \<open>0\<close>, and for \<open>-1 < idx < 0\<close> the line through the first two samples continued
  to the left.
\<close>

lemma sample_at_cases:
  fixes time_s :: real and res_ms :: int
  assumes "arr \<noteq> []" "res_ms \<noteq> 0"
  defines "idx \<equiv> (time_s * 1000) / of_int res_ms"
  shows "idx \<le> - 1 \<Longrightarrow> sample_at arr time_s res_ms = Inr (of_int (arr ! 0) / 255)"
    and "real (length arr) - 1 \<le> idx \<Longrightarrow>
           sample_at arr time_s res_ms = Inr (of_int (last arr) / 255)"
    and "0 \<le> idx \<Longrightarrow> idx < real (length arr) - 1 \<Longrightarrow>
           sample_at arr time_s res_ms =
             Inr ((of_int (arr ! nat \<lfloor>idx\<rfloor>) * (1 - (idx - of_int \<lfloor>idx\<rfloor>))
                  + of_int (arr ! (nat \<lfloor>idx\<rfloor> + 1)) * (idx - of_int \<lfloor>idx\<rfloor>)) / 255)"
    and "- 1 < idx \<Longrightarrow> idx < 0 \<Longrightarrow> 2 \<le> length arr \<Longrightarrow>
           sample_at arr time_s res_ms =
             Inr ((of_int (arr ! 0) * (1 - idx) + of_int (arr ! 1) * idx) / 255)"
proof -
  show "sample_at arr time_s res_ms = Inr (of_int (arr ! 0) / 255)" if "idx \<le> - 1"
  proof -
    from that have "\<lceil>idx\<rceil> \<le> - 1" by (simp add: ceiling_le_iff)
    with that assms(1,2) show ?thesis
      by (simp add: sample_at_def py_int_def Let_def idx_def[symmetric])
  qed
  show "sample_at arr time_s res_ms = Inr (of_int (last arr) / 255)"
    if "real (length arr) - 1 \<le> idx"
  proof -
    from assms(1) have "0 < length arr" by simp
    with that have nn: "0 \<le> idx" by linarith
    from that have "int (length arr) - 1 \<le> \<lfloor>idx\<rfloor>" by (simp add: le_floor_iff)
    with nn assms(1,2) show ?thesis
      by (simp add: sample_at_def py_int_def Let_def idx_def[symmetric])
  qed
  show "sample_at arr time_s res_ms =
             Inr ((of_int (arr ! nat \<lfloor>idx\<rfloor>) * (1 - (idx - of_int \<lfloor>idx\<rfloor>))
                  + of_int (arr ! (nat \<lfloor>idx\<rfloor> + 1)) * (idx - of_int \<lfloor>idx\<rfloor>)) / 255)"
    if "0 \<le> idx" "idx < real (length arr) - 1"
  proof -
    from that(1) have f0: "0 \<le> \<lfloor>idx\<rfloor>" by simp
    from that(2) have f1: "\<lfloor>idx\<rfloor> < int (length arr) - 1" by (simp add: floor_less_iff)
    from f0 have "nat (\<lfloor>idx\<rfloor> + 1) = nat \<lfloor>idx\<rfloor> + 1" by linarith
    with that(1) f0 f1 assms(1,2) show ?thesis
      by (simp add: sample_at_def py_int_def Let_def idx_def[symmetric])
  qed
  show "sample_at arr time_s res_ms =
             Inr ((of_int (arr ! 0) * (1 - idx) + of_int (arr ! 1) * idx) / 255)"
    if "- 1 < idx" "idx < 0" "2 \<le> length arr"
  proof -
    from that(1,2) have "\<lceil>idx\<rceil> = 0" by (simp add: ceiling_eq_iff)
    with that assms(1,2) show ?thesis
      by (simp add: sample_at_def py_int_def Let_def idx_def[symmetric])
  qed
qed

text \<open>
  C9. \<^verbatim>\<open>sample_at\<close> is claimed to return the first sample's value for every time before
  the first sample. For the two-sample signal \<open>[0, 255]\<close> at 1000 ms resolution and
  \<open>t = -0.5\<close> the truncated index is \<open>0\<close>, no clamp applies, and the interpolation
  formula extrapolates to \<open>-0.5\<close>, outside the documented range 0 to 1.
\<close>

theorem sample_at_extrapolates_below_zero:
  "sample_at [0, 255] (- 0.5) 1000 = Inr (- 0.5)"
  by code_simp

section \<open>Scoring: ranges and exceptions\<close>

lemma clamp_in_range: "score_in_range (min 10 (max 0 v))"
  by (simp add: score_in_range_def)

lemma weights_eval:
  "weight ''beat_sync'' = 0.25" "weight ''flow'' = 0.20" "weight ''difficulty_curve'' = 0.15"
  "weight ''type_variety'' = 0.10" "weight ''lane_coverage'' = 0.10"
  "weight ''energy_match'' = 0.10" "weight ''cull_rate'' = 0.10"
  by (simp_all add: weight_def SCORE_WEIGHTS_def)

lemma weights_sum_to_one: "sum_list (map snd SCORE_WEIGHTS) = 1"
  by (simp add: SCORE_WEIGHTS_def)

lemma total_in_range:
  assumes "score_in_range (beat_sync s)" "score_in_range (flow s)"
    "score_in_range (difficulty_curve s)" "score_in_range (type_variety s)"
    "score_in_range (lane_coverage s)" "score_in_range (energy_match s)"
    "score_in_range (cull_rate s)"
  shows "score_in_range (total s)"
  using assms unfolding score_in_range_def total_def weights_eval by simp

lemma beat_sync_in_range: "score_in_range (beat_sync_score all_events bs)"
proof (cases "all_events = []")
  case True
  then show ?thesis by (simp add: beat_sync_score_def score_in_range_def)
next
  case False
  let ?synced = "length (filter (\<lambda>e. find_nearest_beat bs (t e) \<le> BEAT_SNAP_WINDOW_S) all_events)"
  have "0 \<le> real ?synced / real (length all_events) * 10" by simp
  then show ?thesis using False
    by (simp add: beat_sync_score_def score_in_range_def Let_def)
qed

lemma cull_rate_in_range: "score_in_range (cull_rate_score cull_count total_generated)"
  by (simp add: cull_rate_score_def Let_def score_in_range_def)

lemma count_type_sum: "sum_list (map snd (count_type tc k)) = Suc (sum_list (map snd tc))"
  by (induction tc k rule: count_type.induct) auto

lemma count_type_pos: "\<forall>c \<in> set (map snd tc). 1 \<le> c \<Longrightarrow> \<forall>c \<in> set (map snd (count_type tc k)). 1 \<le> c"
  by (induction tc k rule: count_type.induct) auto

lemma foldl_count_type:
  "\<forall>c \<in> set (map snd tc). 1 \<le> c \<Longrightarrow>
     sum_list (map snd (foldl count_type tc ks)) = sum_list (map snd tc) + length ks \<and>
     (\<forall>c \<in> set (map snd (foldl count_type tc ks)). 1 \<le> c)"
proof (induction ks arbitrary: tc)
  case Nil
  then show ?case by simp
next
  case (Cons k ks)
  from Cons.IH[OF count_type_pos[OF Cons.prems, of k]] show ?case
    by (simp add: count_type_sum)
qed

lemma type_counts_bounds:
  assumes "c \<in> set (map snd (type_counts_of all_events))"
  shows "1 \<le> c \<and> c \<le> length all_events"
proof -
  have f: "sum_list (map snd (type_counts_of all_events)) = length all_events"
    "\<forall>c \<in> set (map snd (type_counts_of all_events)). 1 \<le> c"
    using foldl_count_type[of "[]" "map type_key all_events"]
    by (simp_all add: type_counts_of_def)
  from assms have "c \<le> sum_list (map snd (type_counts_of all_events))"
    by (simp add: member_le_sum_list)
  with f assms show ?thesis by auto
qed

lemma type_variety_in_range: "score_in_range (type_variety_score all_events)"
proof (cases "all_events \<noteq> [] \<and> 1 < length (type_counts_of all_events)")
  case False
  then show ?thesis
    by (auto simp: type_variety_score_def Let_def score_in_range_def)
next
  case True
  define n where "n = length all_events"
  define tc where "tc = type_counts_of all_events"
  have npos: "0 < n" using True by (simp add: n_def)
  have tm_le: "(real c / real n) * log 2 (real c / real n) \<le> 0"
    if "c \<in> set (map snd tc)" for c
  proof -
    from type_counts_bounds[of c all_events] that have "1 \<le> c" "c \<le> n"
      by (simp_all add: tc_def n_def)
    then have "0 < real c / real n" "real c / real n \<le> 1"
      using npos by simp_all
    then have "log 2 (real c / real n) \<le> 0" by simp
    with \<open>0 < real c / real n\<close> show ?thesis
      by (intro mult_nonneg_nonpos) simp_all
  qed
  have "(\<Sum>c\<leftarrow>map snd tc. (real c / real n) * log 2 (real c / real n)) \<le> 0"
    by (rule sum_list_nonpos) (use tm_le in auto)
  then have ent: "0 \<le> - (\<Sum>c\<leftarrow>map snd tc. (real c / real n) * log 2 (real c / real n))"
    by simp
  have "2 \<le> real (min (length tc) 4)" using True by (simp add: tc_def)
  then have "log 2 2 \<le> log 2 (real (min (length tc) 4))"
    by (subst log_le_cancel_iff) auto
  then have me: "0 < log 2 (real (min (length tc) 4))" by simp
  from ent me have "0 \<le> - (\<Sum>c\<leftarrow>map snd tc. (real c / real n) * log 2 (real c / real n))
       / log 2 (real (min (length tc) 4)) * 10"
    by (intro mult_nonneg_nonneg divide_nonneg_pos) simp_all
  then show ?thesis using True
    by (simp add: type_variety_score_def Let_def score_in_range_def n_def tc_def)
qed

lemma clamp_result:
  "(case r of Inl err \<Rightarrow> Inl err | Inr corr \<Rightarrow> Inr (min 10 (max 0 (f corr)))) = Inr v
     \<Longrightarrow> score_in_range v"
  by (cases r) (auto simp: score_in_range_def)

lemma flow_in_range: "score_in_range (flow_score obstacle_events)"
  unfolding flow_score_def Let_def
  by (auto simp: clamp_in_range split: prod.split) (simp_all add: score_in_range_def)

lemma clamp_guarded:
  "(if c then (if d then (case r of Inl err \<Rightarrow> Inl err
                                  | Inr corr \<Rightarrow> Inr (min 10 (max 0 (f corr))))
               else Inr 0)
    else Inr 0) = Inr v \<Longrightarrow> score_in_range v"
  by (cases r) (auto simp: score_in_range_def split: if_splits)

lemma clamp_guarded_energy:
  "(if c then (if z then Inl e
               else (if d then (case r of Inl err \<Rightarrow> Inl err
                                        | Inr corr \<Rightarrow> Inr (min 10 (max 0 (f corr))))
                     else Inr 5))
    else Inr 0) = Inr v \<Longrightarrow> score_in_range v"
  by (cases r) (auto simp: score_in_range_def split: if_splits)

lemma clamp_guarded_lanes:
  "(if c then (case r of Inl err \<Rightarrow> Inl err
                       | Inr lc \<Rightarrow> (if d lc then Inr (min 10 (max 0 (f lc))) else Inr 0))
    else Inr 0) = Inr v \<Longrightarrow> score_in_range v"
  by (cases r) (auto simp: score_in_range_def split: if_splits)

lemma difficulty_curve_in_range:
  "difficulty_curve_score obstacle_events duration = Inr v \<Longrightarrow> score_in_range v"
  unfolding difficulty_curve_score_def Let_def by (rule clamp_guarded)

lemma lane_coverage_in_range:
  "lane_coverage_score all_events = Inr v \<Longrightarrow> score_in_range v"
  unfolding lane_coverage_score_def Let_def by (rule clamp_guarded_lanes)

lemma energy_match_in_range:
  "energy_match_score all_events duration res_ms en = Inr v \<Longrightarrow> score_in_range v"
  unfolding energy_match_score_def Let_def by (rule clamp_guarded_energy)

lemma pearson_fails:
  "pearson_correlation x y = Inl err \<Longrightarrow> length y < length x"
  unfolding pearson_correlation_def Let_def by (simp split: if_splits)

lemma guarded_pearson_returns:
  "length y = length x \<Longrightarrow>
     \<exists>v. (if c then (if d then (case pearson_correlation x y of Inl err \<Rightarrow> Inl err
                                   | Inr corr \<Rightarrow> Inr (g corr))
                        else Inr a)
            else Inr b) = Inr v"
proof (cases "pearson_correlation x y")
  case (Inl err)
  assume "length y = length x"
  with pearson_fails[OF Inl] show ?thesis by simp
next
  case (Inr corr)
  then show ?thesis by simp
qed

lemma difficulty_curve_returns:
  "\<exists>v. difficulty_curve_score obstacle_events duration = Inr v"
  unfolding difficulty_curve_score_def Let_def
  by (rule guarded_pearson_returns) (simp only: length_map length_upt)

lemma bump_lane_length: "bump_lane lc l = Inr lc' \<Longrightarrow> length lc' = length lc"
  by (auto simp: bump_lane_def Let_def split: if_splits)

lemma bump_lane_fails:
  "bump_lane lc l = Inl err \<Longrightarrow>
     err = IndexError \<and> (l < - int (length lc) \<or> int (length lc) \<le> l)"
  by (auto simp: bump_lane_def Let_def split: if_splits)

lemma count_lanes_fails:
  "count_lanes es lc = Inl err \<Longrightarrow>
     err = IndexError \<and> (\<exists>e \<in> set es. lane e < - int (length lc) \<or> int (length lc) \<le> lane e)"
proof (induction es arbitrary: lc)
  case Nil
  then show ?case by simp
next
  case (Cons e es)
  show ?case
  proof (cases "bump_lane lc (lane e)")
    case (Inl err')
    with Cons.prems have "err' = err" by simp
    with bump_lane_fails[OF Inl] show ?thesis by auto
  next
    case (Inr lc')
    with Cons.prems have "count_lanes es lc' = Inl err" by simp
    from Cons.IH[OF this] bump_lane_length[OF Inr] show ?thesis by auto
  qed
qed

lemma guarded_lanes_fails:
  "(if c then (case r of Inl err \<Rightarrow> Inl err
                       | Inr lc \<Rightarrow> (if d lc then Inr (f lc) else Inr 0))
    else Inr 0) = Inl err \<Longrightarrow> r = Inl err"
  by (cases r) (auto split: if_splits)

lemma lane_coverage_fails:
  assumes "lane_coverage_score all_events = Inl err"
  shows "err = IndexError \<and>
           (\<exists>e \<in> set all_events. lane e < - LANE_COUNT \<or> LANE_COUNT \<le> lane e)"
proof -
  have "count_lanes all_events (replicate (nat LANE_COUNT) 0) = Inl err"
    by (rule guarded_lanes_fails[OF assms[unfolded lane_coverage_score_def Let_def]])
  from count_lanes_fails[OF this] show ?thesis
    by (simp add: LANE_COUNT_def)
qed

lemma guarded_energy_fails:
  "(if c then (if z then Inl e
               else (if d then (case pearson_correlation x y of Inl err \<Rightarrow> Inl err
                                  | Inr corr \<Rightarrow> Inr (g corr))
                     else Inr a))
    else Inr b) = Inl err \<Longrightarrow> length y = length x \<Longrightarrow> z \<and> err = e"
proof (cases "pearson_correlation x y")
  case (Inl err')
  assume "length y = length x"
  with pearson_fails[OF Inl] show ?thesis by simp
next
  case (Inr corr)
  assume "(if c then (if z then Inl e
               else (if d then (case pearson_correlation x y of Inl err \<Rightarrow> Inl err
                                  | Inr corr \<Rightarrow> Inr (g corr))
                     else Inr a))
    else Inr b) = Inl err"
  with Inr show ?thesis by (simp split: if_splits)
qed

lemma energy_match_fails:
  assumes "energy_match_score all_events duration res_ms en = Inl err"
  shows "err = ZeroDivisionError \<and> res_ms = 0"
proof -
  have "res_ms = 0 \<and> err = ZeroDivisionError"
    by (rule guarded_energy_fails[OF assms[unfolded energy_match_score_def Let_def]])
       (simp only: length_map)
  then show ?thesis by simp
qed

lemma compute_scores_cases:
  "compute_scores events bd cull_count total_generated =
     (if events = [] then Inr default_scores
      else case difficulty_curve_score (obstacles_of events) (duration_s bd) of
             Inl err \<Rightarrow> Inl err
           | Inr dc \<Rightarrow>
               (case lane_coverage_score events of
                  Inl err \<Rightarrow> Inl err
                | Inr lc \<Rightarrow>
                    (case energy_match_score events (duration_s bd) (resolution_ms bd)
                            (energy bd) of
                       Inl err \<Rightarrow> Inl err
                     | Inr em \<Rightarrow>
                         Inr \<lparr>beat_sync = beat_sync_score events (beats bd),
                              flow = flow_score (obstacles_of events),
                              difficulty_curve = dc,
                              type_variety = type_variety_score events,
                              lane_coverage = lc,
                              energy_match = em,
                              cull_rate = cull_rate_score cull_count total_generated\<rparr>)))"
  by (simp add: compute_scores_def Let_def)

lemma default_scores_in_range: "scores_in_range default_scores"
  by (simp add: scores_in_range_def default_scores_def score_in_range_def total_def)

lemma compute_scores_fails:
  assumes "compute_scores events bd cull_count total_generated = Inl err"
  shows "(err = IndexError \<and>
            (\<exists>e \<in> set events. lane e < - LANE_COUNT \<or> LANE_COUNT \<le> lane e)) \<or>
         (err = ZeroDivisionError \<and> resolution_ms bd = 0)"
proof -
  from assms have ne: "events \<noteq> []"
    by (auto simp: compute_scores_cases)
  obtain dc where dc: "difficulty_curve_score (obstacles_of events) (duration_s bd) = Inr dc"
    using difficulty_curve_returns by blast
  show ?thesis
  proof (cases "lane_coverage_score events")
    case (Inl err')
    with assms ne dc have "err' = err" by (simp add: compute_scores_cases)
    with lane_coverage_fails[OF Inl] show ?thesis by simp
  next
    case lc: (Inr lc)
    show ?thesis
    proof (cases "energy_match_score events (duration_s bd) (resolution_ms bd) (energy bd)")
      case (Inl err')
      with assms ne dc lc have "err' = err" by (simp add: compute_scores_cases)
      with energy_match_fails[OF Inl] show ?thesis by simp
    next
      case (Inr em)
      with assms ne dc lc show ?thesis by (simp add: compute_scores_cases)
    qed
  qed
qed

lemma compute_scores_nonempty:
  assumes "events \<noteq> []" "compute_scores events bd cull_count total_generated = Inr s"
  shows "\<exists>dc lc em.
           difficulty_curve_score (obstacles_of events) (duration_s bd) = Inr dc \<and>
           lane_coverage_score events = Inr lc \<and>
           energy_match_score events (duration_s bd) (resolution_ms bd) (energy bd) = Inr em \<and>
           s = \<lparr>beat_sync = beat_sync_score events (beats bd),
                flow = flow_score (obstacles_of events),
                difficulty_curve = dc,
                type_variety = type_variety_score events,
                lane_coverage = lc,
                energy_match = em,
                cull_rate = cull_rate_score cull_count total_generated\<rparr>"
  using assms by (auto simp: compute_scores_cases split: sum.splits)

lemma compute_scores_in_range:
  assumes "compute_scores events bd cull_count total_generated = Inr s"
  shows "scores_in_range s"
proof (cases "events = []")
  case True
  with assms show ?thesis
    by (auto simp: compute_scores_cases default_scores_in_range)
next
  case False
  from compute_scores_nonempty[OF False assms] obtain dc lc em
    where dc: "difficulty_curve_score (obstacles_of events) (duration_s bd) = Inr dc"
      and lc: "lane_coverage_score events = Inr lc"
      and em: "energy_match_score events (duration_s bd) (resolution_ms bd) (energy bd) = Inr em"
      and s: "s = \<lparr>beat_sync = beat_sync_score events (beats bd),
                flow = flow_score (obstacles_of events),
                difficulty_curve = dc,
                type_variety = type_variety_score events,
                lane_coverage = lc,
                energy_match = em,
                cull_rate = cull_rate_score cull_count total_generated\<rparr>"
    by blast
  have f: "score_in_range (beat_sync s)" "score_in_range (flow s)"
    "score_in_range (difficulty_curve s)" "score_in_range (type_variety s)"
    "score_in_range (lane_coverage s)" "score_in_range (energy_match s)"
    "score_in_range (cull_rate s)"
    using beat_sync_in_range type_variety_in_range cull_rate_in_range flow_in_range
      difficulty_curve_in_range[OF dc] lane_coverage_in_range[OF lc]
      energy_match_in_range[OF em]
    by (simp_all add: s)
  from total_in_range[OF f] f show ?thesis
    unfolding scores_in_range_def by blast
qed

text \<open>
  C4. Whenever \<^verbatim>\<open>compute_scores\<close> returns, each of the seven sub-scores and the
  weighted \<open>total\<close> lie in \<open>[0, 10]\<close>, and the weights of \<open>total\<close> sum to one; this
  covers the empty list, any beat map and any \<open>cull_count\<close> and \<open>total_generated\<close>. It
  returns unless an event's lane is no index of the four lane counters (\<open>IndexError\<close>)
  or \<open>resolution_ms\<close> is zero (\<open>ZeroDivisionError\<close>).
\<close>

theorem compute_scores_bounds:
  "sum_list (map snd SCORE_WEIGHTS) = 1 \<and>
   (case compute_scores events bd cull_count total_generated of
      Inr s \<Rightarrow> scores_in_range s
    | Inl err \<Rightarrow>
        (err = IndexError \<and>
           (\<exists>e \<in> set events. lane e < - LANE_COUNT \<or> LANE_COUNT \<le> lane e)) \<or>
        (err = ZeroDivisionError \<and> resolution_ms bd = 0))"
proof (cases "compute_scores events bd cull_count total_generated")
  case (Inl err)
  with compute_scores_fails[OF Inl] weights_sum_to_one show ?thesis by simp
next
  case (Inr s)
  with compute_scores_in_range[OF Inr] weights_sum_to_one show ?thesis by simp
qed

theorem compute_scores_bounds_witness:
  "\<exists>s. compute_scores three_wall quiet_beat_data 0 3 = Inr s \<and> scores_in_range s"
proof (cases "compute_scores three_wall quiet_beat_data 0 3")
  case (Inl err)
  with compute_scores_bounds[of three_wall quiet_beat_data 0 3]
  have "(\<exists>e \<in> set three_wall. lane e < - LANE_COUNT \<or> LANE_COUNT \<le> lane e)
          \<or> resolution_ms quiet_beat_data = 0"
    by auto
  then show ?thesis
    by (simp add: three_wall_def mk_event_def quiet_beat_data_def LANE_COUNT_def)
next
  case (Inr s)
  with compute_scores_bounds[of three_wall quiet_beat_data 0 3] show ?thesis by simp
qed

lemma three_wall_returns: "\<exists>s. compute_scores three_wall quiet_beat_data c g = Inr s"
proof (cases "compute_scores three_wall quiet_beat_data c g")
  case (Inl err)
  from compute_scores_fails[OF Inl] show ?thesis
    by (simp add: three_wall_def mk_event_def quiet_beat_data_def LANE_COUNT_def)
next
  case (Inr s)
  then show ?thesis by blast
qed

lemma three_wall_collapses:
  "3 \<le> length (obstacles_of three_wall) \<and> length (flow_groups_of (obstacles_of three_wall)) < 3"
  by code_simp

text \<open>
  C5. Three or more obstacle events that collapse to fewer than three time groups are
  claimed to score \<open>flow = 8.0\<close>. The branch that assigns \<open>8.0\<close> is the \<^verbatim>\<open>else\<close> of
  \<^verbatim>\<open>len >= 3\<close> and \<^verbatim>\<open>len <= 2\<close>, which no length reaches; the collapsed case is the
  inner \<^verbatim>\<open>else\<close>, which assigns \<open>10.0\<close>. The wall of three obstacles at \<open>t = 5\<close> shows it.
\<close>

theorem collapsed_flow_is_not_eight:
  "\<exists>s. compute_scores three_wall quiet_beat_data 0 3 = Inr s \<and>
       3 \<le> length (obstacles_of three_wall) \<and>
       length (flow_groups_of (obstacles_of three_wall)) < 3 \<and>
       flow s \<noteq> 8"
proof -
  obtain s where s: "compute_scores three_wall quiet_beat_data 0 3 = Inr s"
    using three_wall_returns by blast
  have ne: "three_wall \<noteq> []" by (simp add: three_wall_def)
  from compute_scores_nonempty[OF ne s]
  have "flow s = flow_score (obstacles_of three_wall)" by auto
  with three_wall_collapses have "flow s = 10"
    by (simp add: flow_score_def Let_def)
  with s three_wall_collapses show ?thesis by auto
qed

text \<open>
  C5, as the code has it: three or more obstacle events that collapse to fewer than three
  time groups score \<open>flow = 10.0\<close>.
\<close>

theorem collapsed_flow_scores_ten:
  assumes "compute_scores events bd cull_count total_generated = Inr s"
    and "3 \<le> length (obstacles_of events)"
    and "length (flow_groups_of (obstacles_of events)) < 3"
  shows "flow s = 10"
proof -
  from assms(2) have ne: "events \<noteq> []" by (auto simp: obstacles_of_def)
  from compute_scores_nonempty[OF ne assms(1)]
  have "flow s = flow_score (obstacles_of events)" by auto
  with assms(2,3) show ?thesis
    by (simp add: flow_score_def Let_def)
qed

theorem collapsed_flow_scores_ten_witness:
  "\<exists>s. compute_scores three_wall quiet_beat_data 0 3 = Inr s \<and>
       3 \<le> length (obstacles_of three_wall) \<and>
       length (flow_groups_of (obstacles_of three_wall)) < 3 \<and>
       flow s = 10"
proof -
  obtain s where s: "compute_scores three_wall quiet_beat_data 0 3 = Inr s"
    using three_wall_returns by blast
  from collapsed_flow_scores_ten[OF s] three_wall_collapses have "flow s = 10" by blast
  with s three_wall_collapses show ?thesis by blast
qed

text \<open>
  C6. With \<open>total_generated = 0\<close> the cull rate is claimed to be \<open>10\<close>, also for an empty
  validated list. The early return for an empty list leaves the default \<open>0.0\<close>.
\<close>

theorem empty_list_cull_rate_is_zero:
  "\<exists>s. compute_scores [] quiet_beat_data 0 0 = Inr s \<and> cull_rate s \<noteq> 10"
  by (simp add: compute_scores_cases default_scores_def)

text \<open>
  C6, as the code has it: with nothing generated, a non-empty validated list scores
  \<open>cull_rate = 10\<close>, and the empty list gets the default breakdown, \<open>cull_rate = 0\<close>.
\<close>

theorem cull_rate_when_nothing_generated:
  assumes "compute_scores events bd cull_count total_generated = Inr s"
    and "total_generated \<le> 0"
  shows "cull_rate s = (if events = [] then 0 else 10)"
proof (cases "events = []")
  case True
  with assms(1) show ?thesis
    by (auto simp: compute_scores_cases default_scores_def)
next
  case False
  from compute_scores_nonempty[OF False assms(1)]
  have "cull_rate s = cull_rate_score cull_count total_generated" by auto
  with assms(2) False show ?thesis
    by (simp add: cull_rate_score_def)
qed

theorem cull_rate_when_nothing_generated_witness:
  "(\<exists>s. compute_scores three_wall quiet_beat_data 0 0 = Inr s \<and> cull_rate s = 10) \<and>
   (\<exists>s. compute_scores [] quiet_beat_data 0 0 = Inr s \<and> cull_rate s = 0)"
proof -
  obtain s where s: "compute_scores three_wall quiet_beat_data 0 0 = Inr s"
    using three_wall_returns by blast
  have ne: "three_wall \<noteq> []" by (simp add: three_wall_def)
  from cull_rate_when_nothing_generated[OF s] ne have a: "cull_rate s = 10" by simp
  obtain s' where s': "compute_scores [] quiet_beat_data 0 0 = Inr s'"
    by (simp add: compute_scores_cases)
  from cull_rate_when_nothing_generated[OF s'] have b: "cull_rate s' = 0" by simp
  from s a s' b show ?thesis by blast
qed

section \<open>Post-processing: the crash beat of scenario C\<close>

lemma min_by_key_least:
  "min_by_key key best xs \<in> set (best # xs) \<and>
   (\<forall>x \<in> set (best # xs). key (min_by_key key best xs) \<le> key x)"
proof (induction xs arbitrary: best)
  case Nil
  then show ?case by simp
next
  case (Cons x xs)
  from Cons.IH[of "if key x < key best then x else best"] show ?case
    by (auto split: if_splits)
qed

lemma round3_8: "round3 8 = 8"
  by (simp add: round3_def py_round_def Let_def)

lemma round3_114: "round3 (57 / 50) = 57 / 50"
  by (simp add: round3_def py_round_def Let_def)

text \<open>
  C7. For the car at \<open>t = 10\<close>, lane 2, and the beat at \<open>t = 8\<close> the emitted
  \<^verbatim>\<open>car_crash_beat\<close> is claimed to carry \<open>lead = 1.29\<close>. The code computes
  \<open>(2040 - (200 + 350 * 2)) / 1000\<close>, which is \<open>1.14\<close>.
\<close>

theorem scenario_c_lead_is_not_1_29:
  "fst (add_car_crash_beats single_car beat_at_eight (constant_rng 0) 0.35)
     = [\<lparr>t = 8, lane = 2, type = ''car_crash_beat'', lead = Some 1.14\<rparr>,
        mk_event 10 2 ''car''] \<and>
   Some (1.14 :: real) \<noteq> Some 1.29"
  by code_simp

text \<open>
  C7, as the code has it: whatever other beats the beat map holds, when the draw triggers
  (\<open>random() \<le> car_crash_prob\<close>) the pass emits one \<^verbatim>\<open>car_crash_beat\<close> at \<open>t = 8\<close>,
  lane 2, with \<open>lead = 1.14\<close>, and returns it before the car.
\<close>

theorem scenario_c_crash_beat:
  assumes "8 \<in> set (beats bd)" and "r 0 \<le> car_crash_prob"
  shows "fst (add_car_crash_beats [mk_event 10 2 ''car''] bd r car_crash_prob)
     = [\<lparr>t = 8, lane = 2, type = ''car_crash_beat'', lead = Some 1.14\<rparr>,
        mk_event 10 2 ''car'']"
proof -
  let ?cands = "filter (\<lambda>b. 1 \<le> 10 - b \<and> 10 - b \<le> 3) (beats bd)"
  from assms(1) have in8: "8 \<in> set ?cands" by simp
  from length_pos_if_in_set[OF in8] obtain b0 others where c: "?cands = b0 # others"
    by (cases ?cands) auto
  let ?m = "min_by_key (\<lambda>b. \<bar>(10 - b) - 2\<bar>) b0 others"
  from min_by_key_least[of "\<lambda>b. \<bar>(10 - b) - 2\<bar>" b0 others] in8 c
  have "\<bar>(10 - ?m) - 2\<bar> \<le> \<bar>(10 - 8) - 2\<bar>" by (metis (no_types, lifting))
  then have m: "?m = 8" by simp
  show ?thesis
    using assms(2) c m
    by (simp add: add_car_crash_beats_def rng_random_def mk_event_def Let_def
        SPAWN_X_def KILL_ZONE_X_def CAR_SPEED_def ROAD_BASE_SPEED_def GAME_WIDTH_def
        OBSTACLE_SPAWN_MARGIN_def CAR_SPEED_FACTOR_def round3_8 round3_114)
qed

theorem scenario_c_crash_beat_witness:
  "8 \<in> set (beats beat_at_eight) \<and> constant_rng 0 0 \<le> 0.35 \<and>
   fst (add_car_crash_beats [mk_event 10 2 ''car''] beat_at_eight (constant_rng 0) 0.35)
     = [\<lparr>t = 8, lane = 2, type = ''car_crash_beat'', lead = Some 1.14\<rparr>,
        mk_event 10 2 ''car'']"
proof -
  have a: "8 \<in> set (beats beat_at_eight)" by (simp add: beat_at_eight_def)
  have b: "constant_rng 0 0 \<le> 0.35" by (simp add: constant_rng_def)
  from a b scenario_c_crash_beat[of beat_at_eight "constant_rng 0" "0.35", OF a b]
  show ?thesis by blast
qed

section \<open>Section quotas: the energy scale\<close>

lemma energy_scale_lower:
  "0 \<le> section_energies ! s \<Longrightarrow> 0.7 \<le> energy_scale section_energies avg s"
  by (simp add: energy_scale_def)

text \<open>
  C8. The energy scale of a section's quota is claimed to lie in \<open>[0.7, 1.3]\<close>. With all
  of the track's energy in the first section the mean of the eight section energies is
  \<open>1/8\<close>, and the first section's scale is \<open>0.7 + 0.6 * (1 / 0.25) = 3.1\<close>: its single
  beat gets quota \<open>round(0.55 * 0.296875 * 3.1) = 1\<close>. Each entry is
  \<open>(s_beats, quota, energy_scale)\<close>.
\<close>

theorem energy_scale_exceeds_bound:
  "section_quotas spike_beat_data hard_params =
     Inr [([5], 1, 3.1), ([], 0, 0.7), ([], 0, 0.7), ([], 0, 0.7), ([], 0, 0.7),
          ([], 0, 0.7), ([], 0, 0.7), ([], 0, 0.7)]"
  by code_simp


end
